theory Spec2Isabelle
  imports Main "HOL-Library.AList" "HOL-Library.Multiset"
begin

section \<open>Characters and strings\<close>

text \<open>
  Python strings are modelled as \<^typ>\<open>string\<close>. Letter case and the word characters of
  \<^verbatim>\<open>\w\<close> are those of the ASCII range; code points above it are outside the model.
\<close>

definition is_digit :: "char \<Rightarrow> bool" where
  "is_digit c = (let n = (of_char c :: nat) in 48 \<le> n \<and> n \<le> 57)"

definition is_upper :: "char \<Rightarrow> bool" where
  "is_upper c = (let n = (of_char c :: nat) in 65 \<le> n \<and> n \<le> 90)"

definition is_lower :: "char \<Rightarrow> bool" where
  "is_lower c = (let n = (of_char c :: nat) in 97 \<le> n \<and> n \<le> 122)"

definition is_alnum :: "char \<Rightarrow> bool" where
  "is_alnum c = (is_upper c \<or> is_lower c \<or> is_digit c)"

text \<open>The class \<^verbatim>\<open>\w\<close>: letters, digits and the underscore.\<close>

definition is_word :: "char \<Rightarrow> bool" where
  "is_word c = (is_alnum c \<or> c = CHR ''_'')"

section \<open>The path template compiler\<close>

text \<open>
  \<^verbatim>\<open>RE_SUGAR = re.compile(r"{(\w+)}")\<close>.
  \<open>RE_SUGAR_match s\<close> is a match of the expression at the start of \<open>s\<close>: the name
  captured by group 1 and the text after the match. The greedy \<^verbatim>\<open>\w+\<close> takes the
  whole run of word characters; since the closing brace is not a word character, no
  shorter run can be followed by it, so backtracking never finds another match.
\<close>

definition RE_SUGAR_match :: "string \<Rightarrow> (string \<times> string) option" where
  "RE_SUGAR_match s =
     (case s of
        [] \<Rightarrow> None
      | c # cs \<Rightarrow>
          if c = CHR ''{'' \<and> takeWhile is_word cs \<noteq> [] then
            (case dropWhile is_word cs of
               [] \<Rightarrow> None
             | d # rest \<Rightarrow> if d = CHR ''}'' then Some (takeWhile is_word cs, rest) else None)
          else None)"

text \<open>The replacement template \<^verbatim>\<open>r"(?P<\1>[^/]*)"\<close> with group 1 filled in.\<close>

definition sugar_repl :: "string \<Rightarrow> string" where
  "sugar_repl name = ''(?P<'' @ name @ ''>[^/]*)''"

text \<open>
  \<^verbatim>\<open>def transform_path(orig_path): return RE_SUGAR.sub(r"(?P<\1>[^/]*)", orig_path)\<close>.
  \<^verbatim>\<open>sub\<close> scans from the left: where the expression matches, the replacement is emitted
  and the scan resumes after the match; elsewhere the character is copied.
\<close>

function transform_path :: "string \<Rightarrow> string" where
  "transform_path [] = []"
| "transform_path (c # cs) =
     (case RE_SUGAR_match (c # cs) of
        Some (name, rest) \<Rightarrow> sugar_repl name @ transform_path rest
      | None \<Rightarrow> c # transform_path cs)"
  by pat_completeness auto
termination
proof (relation "measure length")
  show "wf (measure length)" by simp
next
  fix c :: char and cs :: string and x2 :: "string \<times> string" and name rest :: string
  assume "RE_SUGAR_match (c # cs) = Some x2" and "(name, rest) = x2"
  then have "dropWhile is_word cs = CHR ''}'' # rest"
    by (auto simp: RE_SUGAR_match_def split: if_splits list.splits)
  then have "length rest < length (dropWhile is_word cs)"
    by simp
  also have "\<dots> \<le> length cs"
    by (rule length_dropWhile_le)
  finally show "(rest, c # cs) \<in> measure length"
    by simp
next
  fix c :: char and cs :: string
  show "(cs, c # cs) \<in> measure length" by simp
qed

section \<open>Regular expressions and \<^verbatim>\<open>glob_to_regex\<close>\<close>

text \<open>
  The pattern language of Python's \<^verbatim>\<open>re\<close> module, for the expressions this file builds:
  literal characters, backslash escapes, \<^verbatim>\<open>.\<close>, a negated one-character class
  \<^verbatim>\<open>[^c]\<close>, a star on one of these, the anchors \<^verbatim>\<open>\A\<close> and \<^verbatim>\<open>\Z\<close>, and named groups
  \<^verbatim>\<open>(?P<name>...)\<close>.
\<close>

definition backslash :: char where
  "backslash = CHR 0x5C"

definition newline :: char where
  "newline = CHR 0x0A"

text \<open>
  Case folding for \<^verbatim>\<open>re.IGNORECASE\<close>.
\<close>

definition lower :: "char \<Rightarrow> char" where
  "lower c = (if is_upper c then char_of (of_char c + (32 :: nat)) else c)"

text \<open>
  An atom matches one character. A compiled expression is a list of instructions: an
  atom, a starred atom (greedy), the two anchors, and the opening and closing of a named
  group.
\<close>

datatype atom = Lit char | AnyChar | NotChar char

datatype instr = IAtom atom | IStar atom | IBos | IEos | IOpen string | IClose

text \<open>
  Reading one token of an expression, with the text after it. \<open>None\<close>: the text is not
  an expression of the language above (a quantifier other than the star, alternation, a
  larger character class, a backslash before a letter or digit other than \<^verbatim>\<open>\A\<close> and
  \<^verbatim>\<open>\Z\<close>, a group name that is not an identifier).
\<close>

datatype tok = TAtom atom | TBos | TEos | TOpen string | TClose

definition is_meta :: "char \<Rightarrow> bool" where
  "is_meta c = (c \<in> set ''.^$*+?{}[]|()'' \<or> c = backslash)"

definition group_name_ok :: "string \<Rightarrow> bool" where
  "group_name_ok n = (n \<noteq> [] \<and> \<not> is_digit (hd n) \<and> list_all is_word n)"

definition re_token :: "string \<Rightarrow> (tok \<times> string) option" where
  "re_token s =
     (case s of
        [] \<Rightarrow> None
      | c # r \<Rightarrow>
          if c = backslash then
            (case r of
               [] \<Rightarrow> None
             | d # r' \<Rightarrow>
                 if d = CHR ''A'' then Some (TBos, r')
                 else if d = CHR ''Z'' then Some (TEos, r')
                 else if is_alnum d then None
                 else Some (TAtom (Lit d), r'))
          else if c = CHR ''.'' then Some (TAtom AnyChar, r)
          else if c = CHR ''['' then
            (case r of
               u # d # e # r' \<Rightarrow>
                 if u = CHR ''^'' \<and> e = CHR '']'' \<and> \<not> is_meta d \<and> d \<noteq> CHR ''-''
                 then Some (TAtom (NotChar d), r') else None
             | _ \<Rightarrow> None)
          else if c = CHR ''('' then
            (if take 3 r = ''?P<'' then
               (case dropWhile (\<lambda>x. x \<noteq> CHR ''>'') (drop 3 r) of
                  [] \<Rightarrow> None
                | g # r' \<Rightarrow>
                    if group_name_ok (takeWhile (\<lambda>x. x \<noteq> CHR ''>'') (drop 3 r))
                    then Some (TOpen (takeWhile (\<lambda>x. x \<noteq> CHR ''>'') (drop 3 r)), r')
                    else None)
             else None)
          else if c = CHR '')'' then Some (TClose, r)
          else if is_meta c then None
          else Some (TAtom (Lit c), r))"


text \<open>
  Parsing, with the stack of the groups that are open. A star binds to the atom before
  it; a closing parenthesis needs an open group, and every group is closed at the end.
\<close>

function re_parse :: "string \<Rightarrow> string list \<Rightarrow> instr list option" where
  "re_parse s stk =
     (if s = [] then (if stk = [] then Some [] else None)
      else
        (case re_token s of
           None \<Rightarrow> None
         | Some (t, r) \<Rightarrow>
             (case t of
                TAtom a \<Rightarrow>
                  (case r of
                     [] \<Rightarrow> map_option (Cons (IAtom a)) (re_parse r stk)
                   | q # r' \<Rightarrow>
                       if q = CHR ''*'' then map_option (Cons (IStar a)) (re_parse r' stk)
                       else map_option (Cons (IAtom a)) (re_parse r stk))
              | TBos \<Rightarrow> map_option (Cons IBos) (re_parse r stk)
              | TEos \<Rightarrow> map_option (Cons IEos) (re_parse r stk)
              | TOpen n \<Rightarrow> map_option (Cons (IOpen n)) (re_parse r (n # stk))
              | TClose \<Rightarrow>
                  (case stk of
                     [] \<Rightarrow> None
                   | n # stk' \<Rightarrow> map_option (Cons IClose) (re_parse r stk'))))) "
  by pat_completeness auto
termination
proof -
  have shorter: "length r < length s" if a: "re_token s = Some (t, r)" for s t r
  proof -
    from a obtain c r0 where s: "s = c # r0"
      by (cases s) (auto simp: re_token_def)
    have grp: "length r' < length r0"
      if "dropWhile (\<lambda>x. x \<noteq> CHR ''>'') (drop 3 r0) = g # r'" for g r'
    proof -
      have "length (dropWhile (\<lambda>x. x \<noteq> CHR ''>'') (drop 3 r0)) \<le> length (drop 3 r0)"
        by (rule length_dropWhile_le)
      with that show ?thesis by simp
    qed
    from a show ?thesis
      unfolding s re_token_def
      by (auto split: if_splits list.splits dest: grp)
  qed
  show ?thesis
    by (relation "measure (\<lambda>(s, stk). length s)") (auto dest: shorter)
qed

declare re_parse.simps [simp del]

text \<open>
  \<^verbatim>\<open>re.compile(src, flags)\<close>: the instructions and the \<^verbatim>\<open>IGNORECASE\<close> flag. A group
  name used twice is an error.
\<close>

record pattern =
  prog :: "instr list"
  ignorecase :: bool

fun group_names :: "instr list \<Rightarrow> string list" where
  "group_names [] = []"
| "group_names (IOpen n # is) = n # group_names is"
| "group_names (_ # is) = group_names is"

definition re_compile :: "string \<Rightarrow> bool \<Rightarrow> pattern option" where
  "re_compile src ic =
     (case re_parse src [] of
        None \<Rightarrow> None
      | Some is \<Rightarrow> if distinct (group_names is) then Some \<lparr>prog = is, ignorecase = ic\<rparr> else None)"

text \<open>
  Matching one character. Without \<^verbatim>\<open>re.DOTALL\<close> the dot matches any character except
  a newline.
\<close>

fun amatch :: "bool \<Rightarrow> atom \<Rightarrow> char \<Rightarrow> bool" where
  "amatch ic (Lit c) d = (if ic then lower c = lower d else c = d)"
| "amatch ic AnyChar d = (d \<noteq> newline)"
| "amatch ic (NotChar c) d = (if ic then lower c \<noteq> lower d else c \<noteq> d)"

text \<open>
  The backtracking matcher. \<open>pos\<close> is the number of characters before \<open>s\<close> in the
  subject, \<open>opn\<close> the open groups with the text they have matched so far, \<open>caps\<close> the
  groups closed so far. A star first tries to take one more character and gives it back
  when the rest does not match. With \<open>full\<close> the match must end at the end of the
  subject. The result is the groups of the first match found.
\<close>

definition push :: "char \<Rightarrow> (string \<times> string) list \<Rightarrow> (string \<times> string) list" where
  "push c opn = map (\<lambda>(n, t). (n, t @ [c])) opn"

fun run_re :: "bool \<Rightarrow> bool \<Rightarrow> instr list \<Rightarrow> nat \<Rightarrow> string \<Rightarrow> (string \<times> string) list
                 \<Rightarrow> (string \<times> string) list \<Rightarrow> (string \<times> string) list option" where
  "run_re ic full [] pos s opn caps = (if full \<and> s \<noteq> [] then None else Some caps)"
| "run_re ic full (IAtom a # is) pos s opn caps =
     (case s of
        [] \<Rightarrow> None
      | c # cs \<Rightarrow> if amatch ic a c then run_re ic full is (Suc pos) cs (push c opn) caps else None)"
| "run_re ic full (IStar a # is) pos s opn caps =
     (case s of
        [] \<Rightarrow> run_re ic full is pos [] opn caps
      | c # cs \<Rightarrow>
          if amatch ic a c then
            (case run_re ic full (IStar a # is) (Suc pos) cs (push c opn) caps of
               Some r \<Rightarrow> Some r
             | None \<Rightarrow> run_re ic full is pos s opn caps)
          else run_re ic full is pos s opn caps)"
| "run_re ic full (IBos # is) pos s opn caps =
     (if pos = 0 then run_re ic full is pos s opn caps else None)"
| "run_re ic full (IEos # is) pos s opn caps =
     (if s = [] then run_re ic full is pos s opn caps else None)"
| "run_re ic full (IOpen n # is) pos s opn caps = run_re ic full is pos s ((n, []) # opn) caps"
| "run_re ic full (IClose # is) pos s opn caps =
     (case opn of
        [] \<Rightarrow> None
      | (n, t) # opn' \<Rightarrow> run_re ic full is pos s opn' (caps @ [(n, t)]))"

text \<open>
  \<^verbatim>\<open>Pattern.fullmatch\<close>, \<^verbatim>\<open>Pattern.match\<close> (at the start of the subject) and
  \<^verbatim>\<open>Pattern.search\<close> (at the first position where the expression matches).
\<close>

definition fullmatch :: "pattern \<Rightarrow> string \<Rightarrow> (string \<times> string) list option" where
  "fullmatch p s = run_re (ignorecase p) True (prog p) 0 s [] []"

definition match :: "pattern \<Rightarrow> string \<Rightarrow> (string \<times> string) list option" where
  "match p s = run_re (ignorecase p) False (prog p) 0 s [] []"

fun search_from :: "pattern \<Rightarrow> nat \<Rightarrow> string \<Rightarrow> (string \<times> string) list option" where
  "search_from p pos [] = run_re (ignorecase p) False (prog p) pos [] [] []"
| "search_from p pos (c # cs) =
     (case run_re (ignorecase p) False (prog p) pos (c # cs) [] [] of
        Some r \<Rightarrow> Some r
      | None \<Rightarrow> search_from p (Suc pos) cs)"

definition search :: "pattern \<Rightarrow> string \<Rightarrow> (string \<times> string) list option" where
  "search p s = search_from p 0 s"

text \<open>
  \<^verbatim>\<open>re.escape\<close> (Python 3.7 and later): a backslash before each of the characters
  \<^verbatim>\<open>()[]{}?*+-|^$\.&~#\<close>, the space and the ASCII whitespace controls.
\<close>

definition escape_special :: "char \<Rightarrow> bool" where
  "escape_special c =
     (c \<in> set ''()[]{}?*+-|^$.&~# '' \<or> c = backslash
      \<or> c \<in> {CHR 0x09, CHR 0x0A, CHR 0x0D, CHR 0x0B, CHR 0x0C})"

definition re_escape :: "string \<Rightarrow> string" where
  "re_escape s = concat (map (\<lambda>c. if escape_special c then [backslash, c] else [c]) s)"

text \<open>
  \<^verbatim>\<open>glob_to_regex\<close>: the loop that builds \<^verbatim>\<open>res\<close>, and the compilation of
  \<^verbatim>\<open>r"\A" + res + r"\Z"\<close> with \<^verbatim>\<open>re.IGNORECASE\<close>.
\<close>

definition glob_res :: "string \<Rightarrow> string" where
  "glob_res glob =
     fold (\<lambda>c res. if c = CHR ''*'' then res @ ''.*''
                    else if c = CHR ''?'' then res @ ''.''
                    else res @ re_escape [c]) glob []"

definition glob_to_regex :: "string \<Rightarrow> pattern option" where
  "glob_to_regex glob = re_compile ([backslash, CHR ''A''] @ glob_res glob @ [backslash, CHR ''Z'']) True"

text \<open>
  What a glob means, character by character: \<^verbatim>\<open>*\<close> matches a run, possibly empty, of
  characters other than the newline, \<^verbatim>\<open>?\<close> one character other than the newline, any
  other character itself up to letter case.
\<close>

fun glob_matches :: "string \<Rightarrow> string \<Rightarrow> bool" where
  "glob_matches [] s = (s = [])"
| "glob_matches (g # gs) [] = (g = CHR ''*'' \<and> glob_matches gs [])"
| "glob_matches (g # gs) (c # cs) =
     (if g = CHR ''*'' then glob_matches gs (c # cs) \<or> (c \<noteq> newline \<and> glob_matches (g # gs) cs)
      else (if g = CHR ''?'' then c \<noteq> newline else lower g = lower c) \<and> glob_matches gs cs)"

text \<open>The text and the instruction that one character of a glob contributes.\<close>

definition glob_piece :: "char \<Rightarrow> string" where
  "glob_piece c = (if c = CHR ''*'' then ''.*'' else if c = CHR ''?'' then ''.'' else re_escape [c])"

definition glob_instr :: "char \<Rightarrow> instr" where
  "glob_instr c = (if c = CHR ''*'' then IStar AnyChar else if c = CHR ''?'' then IAtom AnyChar
                   else IAtom (Lit c))"

section \<open>Python values, option dictionaries and errors\<close>

text \<open>
  The values a path specification and its elements can be. A dictionary value lists its
  items in insertion order, each key once.
\<close>

datatype pyval =
    VNone
  | VBool bool
  | VInt int
  | VStr string
  | VTuple "pyval list"
  | VList "pyval list"
  | VDict "(string \<times> pyval) list"

text \<open>
  A dictionary of pattern options is a finite map; two dictionaries are equal when they
  hold the same items, as with Python's \<^verbatim>\<open>==\<close>.
\<close>

type_synonym dict = "string \<rightharpoonup> pyval"

datatype error = IndexError | TypeError

text \<open>A raised exception carries the state reached when it was raised.\<close>

type_synonym 's result = "(error \<times> 's) + 's"

text \<open>\<^verbatim>\<open>d.setdefault(k, v)\<close>: fills an absent key only.\<close>

definition setdefault :: "dict \<Rightarrow> string \<Rightarrow> pyval \<Rightarrow> dict" where
  "setdefault d k v = (if d k = None then d(k \<mapsto> v) else d)"

text \<open>\<^verbatim>\<open>{**a, **b}\<close>: the items of \<open>a\<close>, then those of \<open>b\<close> written over them.\<close>

definition dict_merge :: "dict \<Rightarrow> dict \<Rightarrow> dict" where
  "dict_merge a b = a ++ b"

section \<open>Handlers, instances and the server\<close>

text \<open>
  A handler is a function object carrying \<^verbatim>\<open>_on = (on_method, path_arg, kwargs)\<close>.
  \<open>h_fn\<close> is the identity of the function object; the keyword dictionary is a mutable
  object, so the handler holds its address \<open>h_opts\<close> in the heap of dictionaries.
\<close>

record handler =
  h_fn :: nat
  h_verb :: string
  h_paths :: pyval
  h_opts :: nat

text \<open>\<open>inst_class\<close> is \<^verbatim>\<open>self.__class__.__name__\<close>.\<close>

record inst =
  inst_id :: nat
  inst_class :: string

text \<open>
  One call \<^verbatim>\<open>http_server.register_paths(http_method, patterns, method, cls.__name__)\<close>;
  the bound method is the function with the instance it is bound to.
\<close>

type_synonym 'p call = "string \<times> 'p \<times> (nat \<times> inst) \<times> string"

record 'p state =
  heap :: "nat \<Rightarrow> dict"
  calls :: "'p call list"

text \<open>
  \<^verbatim>\<open>do_register\<close>. \<open>client_patterns\<close> is imported from another module and is the
  parameter \<open>cp\<close>. The function first mutates the dictionary it was given, so the model
  returns that dictionary as left by \<^verbatim>\<open>setdefault\<close>, beside the outcome: the server's
  calls with the new one appended, or the \<^verbatim>\<open>TypeError\<close> of \<^verbatim>\<open>RE_SUGAR.sub\<close> on a
  pattern that is not a string.
\<close>

definition do_register ::
  "(string \<Rightarrow> dict \<Rightarrow> 'p) \<Rightarrow> string \<Rightarrow> 'p call list \<Rightarrow> string \<Rightarrow> pyval \<Rightarrow> dict \<Rightarrow> (nat \<times> inst)
     \<Rightarrow> dict \<times> (error + 'p call list)" where
  "do_register cp cls http_server http_method client_pattern client_pattern_kwargs method =
     (let kw = setdefault client_pattern_kwargs ''add_stopper'' (VBool True) in
      (kw,
       case client_pattern of
         VStr p \<Rightarrow> Inr (http_server @ [(http_method, cp (transform_path p) kw, method, cls)])
       | _ \<Rightarrow> Inl TypeError))"

text \<open>
  The two calls of \<^verbatim>\<open>do_register\<close> in \<^verbatim>\<open>register\<close>. With \<^verbatim>\<open>on[2]\<close> the dictionary
  passed is the annotation's own object, so the mutation is written back to the heap.
\<close>

definition register_base :: "(string \<Rightarrow> dict \<Rightarrow> 'p) \<Rightarrow> inst \<Rightarrow> handler \<Rightarrow> string \<Rightarrow> 'p state \<Rightarrow> 'p state result" where
  "register_base cp self h p st =
     (case do_register cp (inst_class self) (calls st) (h_verb h) (VStr p)
             (heap st (h_opts h)) (h_fn h, self) of
        (kw, r) \<Rightarrow>
          (let st1 = st\<lparr>heap := (heap st)(h_opts h := kw)\<rparr> in
           case r of Inl e \<Rightarrow> Inl (e, st1) | Inr srv \<Rightarrow> Inr (st1\<lparr>calls := srv\<rparr>)))"

text \<open>
  With \<^verbatim>\<open>{**on[2], **path_aggregate[1]}\<close> the dictionary passed is a new object, which
  nothing refers to afterwards. \<^verbatim>\<open>path_aggregate[0]\<close> and \<^verbatim>\<open>path_aggregate[1]\<close>
  raise \<^verbatim>\<open>IndexError\<close> on a shorter tuple, and \<^verbatim>\<open>**\<close> raises \<^verbatim>\<open>TypeError\<close> on a
  value that is not a mapping.
\<close>

definition register_override :: "(string \<Rightarrow> dict \<Rightarrow> 'p) \<Rightarrow> inst \<Rightarrow> handler \<Rightarrow> pyval list \<Rightarrow> 'p state \<Rightarrow> 'p state result" where
  "register_override cp self h xs st =
     (case xs of
        [] \<Rightarrow> Inl (IndexError, st)
      | [x] \<Rightarrow> Inl (IndexError, st)
      | x # y # _ \<Rightarrow>
          (case y of
             VDict ov \<Rightarrow>
               (case do_register cp (inst_class self) (calls st) (h_verb h) x
                       (dict_merge (heap st (h_opts h)) (map_of ov)) (h_fn h, self) of
                  (kw, r) \<Rightarrow>
                    (case r of Inl e \<Rightarrow> Inl (e, st) | Inr srv \<Rightarrow> Inr (st\<lparr>calls := srv\<rparr>)))
           | _ \<Rightarrow> Inl (TypeError, st)))"

text \<open>The body of \<^verbatim>\<open>for path_aggregate in on[1]\<close>: no branch for other values.\<close>

definition register_aggregate :: "(string \<Rightarrow> dict \<Rightarrow> 'p) \<Rightarrow> inst \<Rightarrow> handler \<Rightarrow> pyval \<Rightarrow> 'p state \<Rightarrow> 'p state result" where
  "register_aggregate cp self h path_aggregate st =
     (case path_aggregate of
        VStr p \<Rightarrow> register_base cp self h p st
      | VTuple xs \<Rightarrow> register_override cp self h xs st
      | _ \<Rightarrow> Inr st)"

text \<open>A \<^verbatim>\<open>for\<close> loop over a list, left at the first exception.\<close>

fun for_each :: "('a \<Rightarrow> 's \<Rightarrow> 's result) \<Rightarrow> 'a list \<Rightarrow> 's \<Rightarrow> 's result" where
  "for_each f [] st = Inr st"
| "for_each f (x # xs) st =
     (case f x st of Inl e \<Rightarrow> Inl e | Inr st' \<Rightarrow> for_each f xs st')"

text \<open>
  \<^verbatim>\<open>isinstance(v, Iterable)\<close> with the elements the iteration yields: the items of a
  tuple or list, the keys of a dictionary, the characters of a string.
\<close>

fun iterate :: "pyval \<Rightarrow> pyval list option" where
  "iterate (VStr s) = Some (map (\<lambda>c. VStr [c]) s)"
| "iterate (VTuple xs) = Some xs"
| "iterate (VList xs) = Some xs"
| "iterate (VDict kvs) = Some (map (\<lambda>kv. VStr (fst kv)) kvs)"
| "iterate _ = None"

text \<open>The body of \<^verbatim>\<open>for _method in methods\<close>.\<close>

definition register_method :: "(string \<Rightarrow> dict \<Rightarrow> 'p) \<Rightarrow> inst \<Rightarrow> handler \<Rightarrow> 'p state \<Rightarrow> 'p state result" where
  "register_method cp self h st =
     (case h_paths h of
        VStr p \<Rightarrow> register_base cp self h p st
      | v \<Rightarrow>
          (case iterate v of
             Some xs \<Rightarrow> for_each (register_aggregate cp self h) xs st
           | None \<Rightarrow> Inr st))"

text \<open>
  The closure \<^verbatim>\<open>register(self, http_server)\<close> of \<^verbatim>\<open>register_proxy\<close>; \<open>methods\<close> is the
  set in the order its iteration yields.
\<close>

definition register :: "(string \<Rightarrow> dict \<Rightarrow> 'p) \<Rightarrow> handler list \<Rightarrow> inst \<Rightarrow> 'p state \<Rightarrow> 'p state result" where
  "register cp methods self st = for_each (register_method cp self) methods st"

section \<open>Registration routines and the aggregation step\<close>

text \<open>
  The callables that can stand as a type's \<^verbatim>\<open>register\<close> attribute: a function written
  in the class body (by identity), the closures \<^verbatim>\<open>register\<close> and \<^verbatim>\<open>bridge\<close> returned
  by \<^verbatim>\<open>register_proxy\<close> with the variables they capture, and a value that cannot be
  called.
\<close>

datatype routine =
    UserFn nat
  | RegisterFn "handler list"
  | BridgeFn "handler list" routine
  | NotCallable

definition register_proxy :: "handler list \<Rightarrow> routine option \<Rightarrow> routine" where
  "register_proxy methods orig_register =
     (case orig_register of
        None \<Rightarrow> RegisterFn methods
      | Some r \<Rightarrow> BridgeFn methods r)"

text \<open>
  Calling a routine. \<open>usr k\<close> is what the function \<open>k\<close> of the class body does when called
  with the instance and the server.
\<close>

fun run :: "(nat \<Rightarrow> inst \<Rightarrow> 'p state \<Rightarrow> 'p state result) \<Rightarrow> (string \<Rightarrow> dict \<Rightarrow> 'p) \<Rightarrow> routine
              \<Rightarrow> inst \<Rightarrow> 'p state \<Rightarrow> 'p state result" where
  "run usr cp (UserFn k) self st = usr k self st"
| "run usr cp (RegisterFn methods) self st = register cp methods self st"
| "run usr cp (BridgeFn methods orig_register) self st =
     (case register cp methods self st of
        Inl e \<Rightarrow> Inl e
      | Inr st' \<Rightarrow> run usr cp orig_register self st')"
| "run usr cp NotCallable self st = Inl (TypeError, st)"

text \<open>
  The values of \<^verbatim>\<open>cls.__dict__\<close>: a function with \<^verbatim>\<open>_on\<close>, a function without, a
  routine installed by \<^verbatim>\<open>setattr\<close>, \<^verbatim>\<open>None\<close>, and any other value that is not callable.
\<close>

datatype member =
    Handler handler
  | Plain nat
  | Synth routine
  | AttrNone
  | Attr

record pyclass =
  c_name :: string
  c_dict :: "(string \<times> member) list"

text \<open>\<^verbatim>\<open>methods.add(method)\<close>: a set of function objects, compared by identity.\<close>

definition add_method :: "handler \<Rightarrow> handler list \<Rightarrow> handler list" where
  "add_method h ms = (if h_fn h \<in> h_fn ` set ms then ms else ms @ [h])"

definition annotated :: "(string \<times> member) list \<Rightarrow> handler list" where
  "annotated items =
     fold (\<lambda>(name, m) ms. case m of Handler h \<Rightarrow> add_method h ms | _ \<Rightarrow> ms) items []"

text \<open>\<^verbatim>\<open>cls.__dict__.get("register", None)\<close>, as the callable it is.\<close>

fun as_routine :: "member \<Rightarrow> routine option" where
  "as_routine (Handler h) = Some (UserFn (h_fn h))"
| "as_routine (Plain k) = Some (UserFn k)"
| "as_routine (Synth r) = Some r"
| "as_routine AttrNone = None"
| "as_routine Attr = Some NotCallable"

definition orig_register_of :: "pyclass \<Rightarrow> routine option" where
  "orig_register_of cls =
     (case map_of (c_dict cls) ''register'' of
        None \<Rightarrow> None
      | Some m \<Rightarrow> as_routine m)"

text \<open>
  \<^verbatim>\<open>servelet\<close>. Python does not fix the order in which a set is iterated; \<open>order\<close> maps
  the handlers in the order they were added to the order of iteration.
\<close>

definition servelet :: "(handler list \<Rightarrow> handler list) \<Rightarrow> pyclass \<Rightarrow> pyclass" where
  "servelet order cls =
     (let methods = annotated (c_dict cls) in
      if length methods > 0 then
        cls\<lparr>c_dict := AList.update ''register''
               (Synth (register_proxy (order methods) (orig_register_of cls))) (c_dict cls)\<rparr>
      else cls)"

section \<open>Well-formed path specifications\<close>

text \<open>
  A path specification is well-formed when it is a string, or a sequence of strings and
  \<open>(string, options)\<close> pairs. A string counts one path entry, a sequence as many as it
  has elements.
\<close>

fun wf_entry :: "pyval \<Rightarrow> bool" where
  "wf_entry (VStr p) = True"
| "wf_entry (VTuple [VStr p, VDict ov]) = True"
| "wf_entry _ = False"

fun wf_paths :: "pyval \<Rightarrow> bool" where
  "wf_paths (VStr p) = True"
| "wf_paths (VTuple xs) = list_all wf_entry xs"
| "wf_paths (VList xs) = list_all wf_entry xs"
| "wf_paths _ = False"

fun n_entries :: "pyval \<Rightarrow> nat" where
  "n_entries (VStr p) = 1"
| "n_entries (VTuple xs) = length xs"
| "n_entries (VList xs) = length xs"
| "n_entries _ = 0"

text \<open>The default that \<^verbatim>\<open>do_register\<close> fills in.\<close>

definition fill :: "dict \<Rightarrow> dict" where
  "fill d = setdefault d ''add_stopper'' (VBool True)"

section \<open>Outcomes and heaps\<close>

text \<open>The state an outcome leaves behind, whether it is a return or an exception.\<close>

definition reached :: "'s result \<Rightarrow> 's" where
  "reached r = (case r of Inl (e, st) \<Rightarrow> st | Inr st \<Rightarrow> st)"

text \<open>Calling a routine \<open>n\<close> times in a row, up to the first exception.\<close>

fun times :: "nat \<Rightarrow> ('s \<Rightarrow> 's result) \<Rightarrow> 's \<Rightarrow> 's result" where
  "times 0 f st = Inr st"
| "times (Suc n) f st = (case f st of Inl e \<Rightarrow> Inl e | Inr st' \<Rightarrow> times n f st')"

text \<open>
  Two relations between heaps of dictionaries: every dictionary is as before or has had
  the default filled in; and the dictionaries agree once the default is filled in.
\<close>

definition heap_filled :: "(nat \<Rightarrow> dict) \<Rightarrow> (nat \<Rightarrow> dict) \<Rightarrow> bool" where
  "heap_filled hp hp' = (\<forall>r. hp' r = hp r \<or> hp' r = fill (hp r))"

definition heap_eqv :: "'p state \<Rightarrow> 'p state \<Rightarrow> bool" where
  "heap_eqv s t = (\<forall>r. fill (heap s r) = fill (heap t r))"

section \<open>Example objects\<close>

definition ex_self :: inst where
  "ex_self = \<lparr>inst_id = 0, inst_class = ''RoomServlet''\<rparr>"

definition ex_state :: "(string \<times> dict) state" where
  "ex_state = \<lparr>heap = (\<lambda>_. Map.empty), calls = []\<rparr>"

text \<open>A stand-in for \<^verbatim>\<open>client_patterns\<close> that keeps its arguments.\<close>

definition ex_cp :: "string \<Rightarrow> dict \<Rightarrow> string \<times> dict" where
  "ex_cp p kw = (p, kw)"

definition ex_get :: handler where
  "ex_get = \<lparr>h_fn = 1, h_verb = ''GET'', h_paths = VStr ''rooms/{roomId}/state'', h_opts = 1\<rparr>"

definition ex_put :: handler where
  "ex_put = \<lparr>h_fn = 2, h_verb = ''PUT'',
             h_paths = VList [VStr ''foo'', VTuple [VStr ''foo/{id}'', VDict [(''x'', VInt 1)]]],
             h_opts = 2\<rparr>"

definition ex_state2 :: "(string \<times> dict) state" where
  "ex_state2 = \<lparr>heap = (\<lambda>_. Map.empty)(2 := [''x'' \<mapsto> VInt 0, ''y'' \<mapsto> VInt 2]), calls = []\<rparr>"

definition ex_cls :: pyclass where
  "ex_cls = \<lparr>c_name = ''RoomServlet'', c_dict = [(''on_get'', Handler ex_get)]\<rparr>"

definition ex_cls_own :: pyclass where
  "ex_cls_own = \<lparr>c_name = ''RoomServlet'',
                  c_dict = [(''register'', Plain 7), (''on_get'', Handler ex_get)]\<rparr>"

text \<open>A hand-written \<^verbatim>\<open>register\<close> that registers one path of its own.\<close>

definition ex_usr :: "nat \<Rightarrow> inst \<Rightarrow> (string \<times> dict) state \<Rightarrow> (string \<times> dict) state result" where
  "ex_usr k self st =
     Inr (st\<lparr>calls := calls st @ [(''POST'', (''manual'', Map.empty), (k, self), inst_class self)]\<rparr>)"

section \<open>Properties of the registration compiler\<close>

lemma annotated_none_aux:
  "\<forall>(name, m) \<in> set items. \<forall>h. m \<noteq> Handler h \<Longrightarrow>
   fold (\<lambda>(name, m) ms. case m of Handler h \<Rightarrow> add_method h ms | _ \<Rightarrow> ms) items acc = acc"
  by (induction items arbitrary: acc) (auto split: member.splits)

lemma annotated_none:
  "\<forall>(name, m) \<in> set items. \<forall>h. m \<noteq> Handler h \<Longrightarrow> annotated items = []"
  unfolding annotated_def by (rule annotated_none_aux)

lemma register_base_eq:
  "register_base cp self h p st =
     Inr (st\<lparr>heap := (heap st)(h_opts h := fill (heap st (h_opts h))),
             calls := calls st @ [(h_verb h, cp (transform_path p) (fill (heap st (h_opts h))),
                                   (h_fn h, self), inst_class self)]\<rparr>)"
  by (simp add: register_base_def do_register_def fill_def Let_def)

lemma register_override_eq:
  "register_override cp self h (VStr p # VDict ov # zs) st =
     Inr (st\<lparr>calls := calls st @ [(h_verb h,
              cp (transform_path p) (fill (dict_merge (heap st (h_opts h)) (map_of ov))),
              (h_fn h, self), inst_class self)]\<rparr>)"
  by (simp add: register_override_def do_register_def fill_def Let_def)

lemma wf_entry_cases:
  "wf_entry e \<Longrightarrow> (\<exists>p. e = VStr p) \<or> (\<exists>p ov. e = VTuple [VStr p, VDict ov])"
  by (induction e rule: wf_entry.induct) auto

lemma register_aggregate_wf:
  assumes "wf_entry e"
  shows "\<exists>st' c. register_aggregate cp self h e st = Inr st' \<and> calls st' = calls st @ [c]"
  using wf_entry_cases[OF assms]
  by (auto simp: register_aggregate_def register_base_eq register_override_eq)

lemma for_each_wf:
  assumes "list_all wf_entry xs"
  shows "\<exists>st' new. for_each (register_aggregate cp self h) xs st = Inr st'
            \<and> calls st' = calls st @ new \<and> length new = length xs"
  using assms
proof (induction xs arbitrary: st)
  case Nil
  show ?case by simp
next
  case (Cons e xs)
  then have e: "wf_entry e" and xs: "list_all wf_entry xs" by simp_all
  from register_aggregate_wf[OF e] obtain st1 c where
    1: "register_aggregate cp self h e st = Inr st1" and c1: "calls st1 = calls st @ [c]"
    by blast
  from Cons.IH[OF xs, of st1] obtain st2 new where
    2: "for_each (register_aggregate cp self h) xs st1 = Inr st2"
    and c2: "calls st2 = calls st1 @ new" and 3: "length new = length xs" by blast
  have "for_each (register_aggregate cp self h) (e # xs) st = Inr st2"
    using 1 2 by simp
  moreover have "calls st2 = calls st @ (c # new)" using c1 c2 by simp
  moreover have "length (c # new) = length (e # xs)" using 3 by simp
  ultimately show ?case by blast
qed

lemma register_method_wf:
  assumes "wf_paths (h_paths h)"
  shows "\<exists>st' new. register_method cp self h st = Inr st' \<and> calls st' = calls st @ new
            \<and> length new = n_entries (h_paths h)"
proof (cases "h_paths h")
  case (VStr p)
  then show ?thesis
    by (simp add: register_method_def register_base_eq)
next
  case (VTuple xs)
  with assms have "list_all wf_entry xs" by simp
  from for_each_wf[OF this] VTuple show ?thesis
    by (simp add: register_method_def)
next
  case (VList xs)
  with assms have "list_all wf_entry xs" by simp
  from for_each_wf[OF this] VList show ?thesis
    by (simp add: register_method_def)
qed (use assms in simp_all)

lemma register_wf:
  assumes "\<forall>h \<in> set methods. wf_paths (h_paths h)"
  shows "\<exists>st' new. register cp methods self st = Inr st' \<and> calls st' = calls st @ new
            \<and> length new = (\<Sum>h\<leftarrow>methods. n_entries (h_paths h))"
  using assms
proof (induction methods arbitrary: st)
  case Nil
  show ?case by (simp add: register_def)
next
  case (Cons m ms)
  then have m: "wf_paths (h_paths m)" and ms: "\<forall>h \<in> set ms. wf_paths (h_paths h)" by simp_all
  from register_method_wf[OF m] obtain st1 new1 where
    1: "register_method cp self m st = Inr st1" and c1: "calls st1 = calls st @ new1"
    and l1: "length new1 = n_entries (h_paths m)" by blast
  from Cons.IH[OF ms, of st1] obtain st2 new2 where
    2: "register cp ms self st1 = Inr st2" and c2: "calls st2 = calls st1 @ new2"
    and l2: "length new2 = (\<Sum>h\<leftarrow>ms. n_entries (h_paths h))" by blast
  have "register cp (m # ms) self st = Inr st2"
    using 1 2 by (simp add: register_def)
  moreover have "calls st2 = calls st @ (new1 @ new2)" using c1 c2 by simp
  moreover have "length (new1 @ new2) = (\<Sum>h\<leftarrow>m # ms. n_entries (h_paths h))"
    using l1 l2 by simp
  ultimately show ?case by blast
qed

text \<open>
  Claim C6. When every handler of the set has a well-formed path specification, one
  invocation of the annotation-driven routine returns normally and issues as many
  server registrations as the handlers have path entries in total; the number is a sum
  over the set, so it is the same for every order of iteration.
\<close>

theorem register_issues_sum_of_entries:
  assumes "distinct methods" and "\<forall>h \<in> set methods. wf_paths (h_paths h)"
  shows "\<exists>st' new. register cp methods self st = Inr st' \<and> calls st' = calls st @ new
           \<and> length new = (\<Sum>h \<in> set methods. n_entries (h_paths h))"
proof -
  from register_wf[OF assms(2)] obtain st' new where
    1: "register cp methods self st = Inr st'" "calls st' = calls st @ new"
    and 2: "length new = (\<Sum>h\<leftarrow>methods. n_entries (h_paths h))" by blast
  have "(\<Sum>h\<leftarrow>methods. n_entries (h_paths h)) = (\<Sum>h \<in> set methods. n_entries (h_paths h))"
    using assms(1) by (rule sum_list_distinct_conv_sum_set)
  with 1 2 show ?thesis by simp
qed

theorem register_issues_sum_of_entries_witness:
  "distinct [ex_put, ex_get] \<and> wf_paths (h_paths ex_put) \<and> wf_paths (h_paths ex_get)
   \<and> (\<exists>st' new. register ex_cp [ex_put, ex_get] ex_self ex_state = Inr st'
         \<and> calls st' = calls ex_state @ new \<and> length new = 3)"
proof -
  have d: "distinct [ex_put, ex_get]"
    by (simp add: ex_put_def ex_get_def)
  have w: "\<forall>h \<in> set [ex_put, ex_get]. wf_paths (h_paths h)"
    by (simp add: ex_put_def ex_get_def)
  have "(\<Sum>h \<in> set [ex_put, ex_get]. n_entries (h_paths h)) = 3"
    by (simp add: ex_put_def ex_get_def)
  with register_issues_sum_of_entries[OF d w, of ex_cp ex_self ex_state] d w
  show ?thesis by simp
qed

text \<open>
  Claim C7. A type none of whose directly declared members is an annotated handler is
  returned by the aggregation step as it was: nothing is installed, and the attribute
  \<^verbatim>\<open>register\<close>, if the type has one, is the same object as before.
\<close>

theorem servelet_without_handlers_unmodified:
  assumes "\<forall>(name, m) \<in> set (c_dict cls). \<forall>h. m \<noteq> Handler h"
  shows "servelet order cls = cls
       \<and> map_of (c_dict (servelet order cls)) ''register'' = map_of (c_dict cls) ''register''"
  using annotated_none[OF assms] by (simp add: servelet_def)

theorem servelet_without_handlers_unmodified_witness:
  "servelet rev \<lparr>c_name = ''Plain'',
          c_dict = [(''register'', Plain 7), (''helper'', Plain 8), (''PATTERN'', Attr)]\<rparr>
       = \<lparr>c_name = ''Plain'',
          c_dict = [(''register'', Plain 7), (''helper'', Plain 8), (''PATTERN'', Attr)]\<rparr>
   \<and> map_of (c_dict (servelet rev \<lparr>c_name = ''Plain'',
          c_dict = [(''register'', Plain 7), (''helper'', Plain 8), (''PATTERN'', Attr)]\<rparr>))
        ''register'' = Some (Plain 7)"
  using servelet_without_handlers_unmodified
    [of "\<lparr>c_name = ''Plain'',
          c_dict = [(''register'', Plain 7), (''helper'', Plain 8), (''PATTERN'', Attr)]\<rparr>" rev]
  by simp

lemma for_each_append:
  "for_each f (xs @ ys) st = (case for_each f xs st of Inl e \<Rightarrow> Inl e | Inr st' \<Rightarrow> for_each f ys st')"
  by (induction xs arbitrary: st) (auto split: sum.splits)

lemma register_aggregate_skip:
  assumes "\<forall>s. e \<noteq> VStr s" and "\<forall>zs. e \<noteq> VTuple zs"
  shows "register_aggregate cp self h e st = Inr st"
  using assms by (cases e) (simp_all add: register_aggregate_def)

lemma register_aggregate_paths_irrelevant:
  "register_aggregate cp self (h\<lparr>h_paths := v\<rparr>) = register_aggregate cp self h"
  by (auto simp: fun_eq_iff register_aggregate_def register_base_def register_override_def
      split: pyval.splits list.splits)

text \<open>
  Claim C8, as the code has it. An element of a sequence that is neither a string nor a
  tuple matches no branch: the loop body returns with the state unchanged, so no
  exception is raised and nothing is registered for it, and the sequence is processed
  as if the element were not there.
\<close>

theorem non_string_non_tuple_element_skipped:
  assumes "\<forall>s. e \<noteq> VStr s" and "\<forall>zs. e \<noteq> VTuple zs"
  shows "register_aggregate cp self h e st = Inr st
       \<and> register_method cp self (h\<lparr>h_paths := VList (xs @ e # ys)\<rparr>) st
           = register_method cp self (h\<lparr>h_paths := VList (xs @ ys)\<rparr>) st"
proof -
  have skip: "\<And>s. register_aggregate cp self h e s = Inr s"
    using assms by (rule register_aggregate_skip)
  have "for_each (register_aggregate cp self h) (xs @ e # ys) st
      = for_each (register_aggregate cp self h) (xs @ ys) st"
    by (simp add: for_each_append skip split: sum.splits)
  then show ?thesis
    by (simp add: skip register_method_def register_aggregate_paths_irrelevant)
qed

theorem non_string_non_tuple_element_skipped_witness:
  "register_aggregate ex_cp ex_self ex_put (VInt 5) ex_state = Inr ex_state
   \<and> register_method ex_cp ex_self (ex_put\<lparr>h_paths := VList ([VStr ''a''] @ VInt 5 # [VStr ''b''])\<rparr>) ex_state
      = register_method ex_cp ex_self (ex_put\<lparr>h_paths := VList ([VStr ''a''] @ [VStr ''b''])\<rparr>) ex_state"
  using non_string_non_tuple_element_skipped[of "VInt 5" ex_cp ex_self ex_put ex_state "[VStr ''a'']" "[VStr ''b'']"]
  by simp

text \<open>
  Claim C8 as stated also covers a tuple that is not a \<open>(string, options)\<close> pair. Such
  an element takes the tuple branch: a one-element tuple raises \<^verbatim>\<open>IndexError\<close>, and
  the string after it in the sequence is never registered.
\<close>

theorem malformed_tuple_raises:
  "register_method ex_cp ex_self
     \<lparr>h_fn = 3, h_verb = ''GET'', h_paths = VList [VTuple [VStr ''a''], VStr ''b''], h_opts = 3\<rparr> ex_state
   = Inl (IndexError, ex_state)"
  by (simp add: register_method_def register_aggregate_def register_override_def)

text \<open>
  Claim C5. For a \<open>(path template, override options)\<close> entry the dictionary built by
  \<^verbatim>\<open>register\<close> and handed to \<^verbatim>\<open>do_register\<close> is the base options with the overrides
  written over them: a key of the overrides carries the override's value, every other
  key carries the base value. These values are the ones \<^verbatim>\<open>client_patterns\<close> receives,
  \<^verbatim>\<open>do_register\<close> only adding \<^verbatim>\<open>add_stopper\<close> when the key is absent.
\<close>

theorem override_options_merged:
  "register_aggregate cp self h (VTuple [VStr p, VDict ov]) st =
     Inr (st\<lparr>calls := calls st @ [(h_verb h,
            cp (transform_path p) (fill (dict_merge (heap st (h_opts h)) (map_of ov))),
            (h_fn h, self), inst_class self)]\<rparr>)
   \<and> (\<forall>k v. map_of ov k = Some v \<longrightarrow>
         dict_merge (heap st (h_opts h)) (map_of ov) k = Some v
         \<and> fill (dict_merge (heap st (h_opts h)) (map_of ov)) k = Some v)
   \<and> (\<forall>k. map_of ov k = None \<longrightarrow>
         dict_merge (heap st (h_opts h)) (map_of ov) k = heap st (h_opts h) k)
   \<and> (\<forall>k v. map_of ov k = None \<longrightarrow> heap st (h_opts h) k = Some v \<longrightarrow>
         fill (dict_merge (heap st (h_opts h)) (map_of ov)) k = Some v)"
  by (auto simp: register_aggregate_def register_override_eq dict_merge_def fill_def
      setdefault_def map_add_def split: option.splits)

theorem override_options_merged_witness:
  "register_aggregate ex_cp ex_self ex_put (VTuple [VStr ''foo/{id}'', VDict [(''x'', VInt 1)]]) ex_state2 =
     Inr (ex_state2\<lparr>calls := [(''PUT'',
            ex_cp ''foo/(?P<id>[^/]*)'' (fill (dict_merge (heap ex_state2 2) (map_of [(''x'', VInt 1)]))),
            (2, ex_self), ''RoomServlet'')]\<rparr>)
   \<and> dict_merge (heap ex_state2 2) (map_of [(''x'', VInt 1)]) = [''x'' \<mapsto> VInt 1, ''y'' \<mapsto> VInt 2]
   \<and> fill (dict_merge (heap ex_state2 2) (map_of [(''x'', VInt 1)])) ''x'' = Some (VInt 1)
   \<and> fill (dict_merge (heap ex_state2 2) (map_of [(''x'', VInt 1)])) ''y'' = Some (VInt 2)"
proof -
  have tp: "transform_path ''foo/{id}'' = ''foo/(?P<id>[^/]*)''"
    by (simp add: RE_SUGAR_match_def sugar_repl_def is_word_def is_alnum_def is_upper_def
        is_lower_def is_digit_def)
  have m: "dict_merge (heap ex_state2 2) (map_of [(''x'', VInt 1)]) = [''x'' \<mapsto> VInt 1, ''y'' \<mapsto> VInt 2]"
    by (auto simp: ex_state2_def dict_merge_def fun_eq_iff map_add_def)
  from override_options_merged[of ex_cp ex_self ex_put "''foo/{id}''" "[(''x'', VInt 1)]" ex_state2]
  show ?thesis
    using tp m by (simp add: ex_put_def ex_self_def ex_state2_def)
qed

lemma fill_fill: "fill (fill d) = fill d"
  by (auto simp: fill_def setdefault_def)

lemma heap_filled_refl: "heap_filled hp hp"
  by (simp add: heap_filled_def)

lemma heap_filled_trans: "heap_filled a b \<Longrightarrow> heap_filled b c \<Longrightarrow> heap_filled a c"
  unfolding heap_filled_def by (metis fill_fill)

lemma reached_simps [simp]: "reached (Inr st) = st" "reached (Inl (e, st)) = st"
  by (simp_all add: reached_def)

lemma for_each_reached:
  assumes step: "\<And>x s. R s (reached (f x s))"
    and refl: "\<And>s. R s s"
    and trans: "\<And>a b c. R a b \<Longrightarrow> R b c \<Longrightarrow> R a c"
  shows "R st (reached (for_each f xs st))"
proof (induction xs arbitrary: st)
  case Nil
  show ?case by (simp add: refl)
next
  case (Cons x xs)
  show ?case
  proof (cases "f x st")
    case (Inl e)
    with step[of st x] show ?thesis by simp
  next
    case (Inr st')
    with step[of st x] have "R st st'" by simp
    moreover have "R st' (reached (for_each f xs st'))" by (rule Cons.IH)
    ultimately show ?thesis using Inr by (auto intro: trans)
  qed
qed

lemma times_reached:
  assumes step: "\<And>s. R s (reached (f s))"
    and refl: "\<And>s. R s s"
    and trans: "\<And>a b c. R a b \<Longrightarrow> R b c \<Longrightarrow> R a c"
  shows "R st (reached (times n f st))"
proof (induction n arbitrary: st)
  case 0
  show ?case by (simp add: refl)
next
  case (Suc n)
  show ?case
  proof (cases "f st")
    case (Inl e)
    with step[of st] show ?thesis by simp
  next
    case (Inr st')
    with step[of st] have "R st st'" by simp
    moreover have "R st' (reached (times n f st'))" by (rule Suc.IH)
    ultimately show ?thesis using Inr by (auto intro: trans)
  qed
qed

lemma register_base_filled: "heap_filled (heap st) (heap (reached (register_base cp self h p st)))"
  by (simp add: register_base_eq heap_filled_def)

lemma register_override_heap: "heap (reached (register_override cp self h xs st)) = heap st"
  by (auto simp: register_override_def do_register_def Let_def split: list.splits pyval.splits)

lemma register_aggregate_filled:
  "heap_filled (heap st) (heap (reached (register_aggregate cp self h e st)))"
  by (cases e) (simp_all add: register_aggregate_def register_base_filled register_override_heap heap_filled_refl)

lemma register_method_filled:
  "heap_filled (heap st) (heap (reached (register_method cp self h st)))"
proof -
  have loop: "\<And>xs. heap_filled (heap st) (heap (reached (for_each (register_aggregate cp self h) xs st)))"
    by (rule for_each_reached[where R = "\<lambda>s s'. heap_filled (heap s) (heap s')"])
       (auto intro: register_aggregate_filled heap_filled_refl heap_filled_trans)
  show ?thesis
    by (cases "h_paths h") (simp_all add: register_method_def register_base_filled loop heap_filled_refl)
qed

lemma register_filled:
  "heap_filled (heap st) (heap (reached (register cp methods self st)))"
  unfolding register_def
  by (rule for_each_reached[where R = "\<lambda>s s'. heap_filled (heap s) (heap s')"])
     (auto intro: register_method_filled heap_filled_refl heap_filled_trans)

text \<open>
  Claim C4, as the code has it. The verb and the path specification are values no
  operation writes to. The base options are passed to \<^verbatim>\<open>do_register\<close> as the object
  itself, and \<^verbatim>\<open>setdefault\<close> writes to it: after any number of invocations of the
  annotation-driven routine, returned or raised, each options dictionary is as before
  or has gained \<^verbatim>\<open>add_stopper = True\<close>; every other key is unchanged, and a
  dictionary that already had the key is unchanged.
\<close>

theorem register_only_fills_default:
  "(heap (reached (times n (register cp methods self) st)) r = heap st r
     \<or> heap (reached (times n (register cp methods self) st)) r
         = setdefault (heap st r) ''add_stopper'' (VBool True))
   \<and> (\<forall>k. k \<noteq> ''add_stopper'' \<longrightarrow>
         heap (reached (times n (register cp methods self) st)) r k = heap st r k)
   \<and> (heap st r ''add_stopper'' \<noteq> None \<longrightarrow>
         heap (reached (times n (register cp methods self) st)) r = heap st r)"
proof -
  have "heap_filled (heap st) (heap (reached (times n (register cp methods self) st)))"
    by (rule times_reached[where R = "\<lambda>s s'. heap_filled (heap s) (heap s')"])
       (auto intro: register_filled heap_filled_refl heap_filled_trans)
  then have "heap (reached (times n (register cp methods self) st)) r = heap st r
     \<or> heap (reached (times n (register cp methods self) st)) r = fill (heap st r)"
    by (simp add: heap_filled_def)
  then show ?thesis
    by (auto simp: fill_def setdefault_def)
qed

text \<open>
  Claim C4 as stated fails: one invocation for a handler with a single string path and
  no options leaves \<^verbatim>\<open>add_stopper = True\<close> in the annotation's base options.
\<close>

theorem register_only_fills_default_witness:
  "heap (reached (times 2 (register ex_cp [ex_get, ex_put] ex_self) ex_state)) 1 ''x''
     = heap ex_state 1 ''x''
   \<and> heap (reached (times 2 (register ex_cp [ex_get, ex_put] ex_self)
              (ex_state\<lparr>heap := \<lambda>_. [''add_stopper'' \<mapsto> VBool False]\<rparr>))) 1
     = [''add_stopper'' \<mapsto> VBool False]"
  using register_only_fills_default[of 2 ex_cp "[ex_get, ex_put]" ex_self ex_state 1]
    register_only_fills_default[of 2 ex_cp "[ex_get, ex_put]" ex_self
      "ex_state\<lparr>heap := \<lambda>_. [''add_stopper'' \<mapsto> VBool False]\<rparr>" 1]
  by simp


theorem register_mutates_base_options:
  "heap ex_state 1 = Map.empty
   \<and> (\<exists>st'. register ex_cp [ex_get] ex_self ex_state = Inr st'
         \<and> heap st' 1 = [''add_stopper'' \<mapsto> VBool True] \<and> heap st' 1 \<noteq> heap ex_state 1)"
  by (simp add: register_def register_method_def register_base_eq ex_get_def ex_state_def
      fill_def setdefault_def fun_eq_iff)

lemma register_calls_extend_aux:
  "\<exists>new. calls (reached (register cp methods self st)) = calls st @ new"
proof -
  let ?R = "\<lambda>s s'. \<exists>new. calls s' = calls s @ new"
  have base: "\<And>h p s. ?R s (reached (register_base cp self h p s))"
    by (simp add: register_base_eq)
  have ov: "\<And>h xs s. ?R s (reached (register_override cp self h xs s))"
    by (auto simp: register_override_def do_register_def Let_def split: list.splits pyval.splits)
  have agg: "\<And>h e s. ?R s (reached (register_aggregate cp self h e s))"
    subgoal for h e s using base[of h _ s] ov[of h _ s] by (cases e) (simp_all add: register_aggregate_def)
    done
  have loop: "\<And>h xs s. ?R s (reached (for_each (register_aggregate cp self h) xs s))"
    by (rule for_each_reached[where R = ?R]) (use agg in auto)
  have meth: "\<And>h s. ?R s (reached (register_method cp self h s))"
    subgoal for h s using base[of h _ s] loop[of h _ s]
      by (cases "h_paths h") (simp_all add: register_method_def)
    done
  show ?thesis
    unfolding register_def
    by (rule for_each_reached[where R = ?R]) (use meth in auto)
qed

text \<open>
  Claim C2. When the type has annotated handlers and defines \<^verbatim>\<open>register\<close> itself, the
  aggregation step installs the bridge over that routine. Calling it runs the
  annotation-driven registrations first; the original routine is then called with the
  same instance on the state these have left, and is not called when they raise. If the
  original routine appends its own registrations, the server's record shows the
  annotation-driven ones before them.
\<close>

theorem bridge_registers_annotations_before_original:
  assumes "annotated (c_dict cls) \<noteq> []" and "orig_register_of cls = Some r"
  shows "map_of (c_dict (servelet order cls)) ''register''
           = Some (Synth (BridgeFn (order (annotated (c_dict cls))) r))
       \<and> run usr cp (BridgeFn (order (annotated (c_dict cls))) r) self st
           = (case register cp (order (annotated (c_dict cls))) self st of
                Inl e \<Rightarrow> Inl e
              | Inr st' \<Rightarrow> run usr cp r self st')
       \<and> (\<forall>st1 st2 evs.
             register cp (order (annotated (c_dict cls))) self st = Inr st1
             \<longrightarrow> run usr cp r self st1 = Inr st2
             \<longrightarrow> calls st2 = calls st1 @ evs
             \<longrightarrow> (\<exists>new. run usr cp (BridgeFn (order (annotated (c_dict cls))) r) self st = Inr st2
                        \<and> calls st1 = calls st @ new
                        \<and> calls st2 = calls st @ new @ evs))"
proof -
  let ?ms = "order (annotated (c_dict cls))"
  have 1: "map_of (c_dict (servelet order cls)) ''register'' = Some (Synth (BridgeFn ?ms r))"
    using assms by (simp add: servelet_def register_proxy_def update_conv')
  have 2: "run usr cp (BridgeFn ?ms r) self st
           = (case register cp ?ms self st of Inl e \<Rightarrow> Inl e | Inr st' \<Rightarrow> run usr cp r self st')"
    by simp
  have 3: "\<exists>new. run usr cp (BridgeFn ?ms r) self st = Inr st2
                        \<and> calls st1 = calls st @ new \<and> calls st2 = calls st @ new @ evs"
    if a: "register cp ?ms self st = Inr st1" and b: "run usr cp r self st1 = Inr st2"
      and c: "calls st2 = calls st1 @ evs" for st1 st2 evs
  proof -
    from register_calls_extend_aux[of cp ?ms self st] a
    obtain new where "calls st1 = calls st @ new" by auto
    with a b c show ?thesis by simp
  qed
  from 1 2 3 show ?thesis by blast
qed

theorem bridge_registers_annotations_before_original_witness:
  "map_of (c_dict (servelet (\<lambda>ms. ms) ex_cls_own)) ''register''
     = Some (Synth (BridgeFn [ex_get] (UserFn 7)))
   \<and> (\<exists>st2. run ex_usr ex_cp (BridgeFn [ex_get] (UserFn 7)) ex_self ex_state = Inr st2
          \<and> map fst (calls st2) = [''GET'', ''POST''])"
proof -
  have an: "annotated (c_dict ex_cls_own) = [ex_get]"
    by (simp add: annotated_def ex_cls_own_def add_method_def)
  have ne: "annotated (c_dict ex_cls_own) \<noteq> []"
    by (simp add: an)
  have og: "orig_register_of ex_cls_own = Some (UserFn 7)"
    by (simp add: orig_register_of_def ex_cls_own_def)
  have r1: "register ex_cp [ex_get] ex_self ex_state
      = Inr (ex_state\<lparr>heap := (heap ex_state)(1 := fill (heap ex_state 1)),
            calls := [(''GET'', ex_cp (transform_path ''rooms/{roomId}/state'') (fill (heap ex_state 1)),
                       (1, ex_self), inst_class ex_self)]\<rparr>)"
    by (simp add: register_def register_method_def register_base_eq ex_get_def ex_state_def)
  from bridge_registers_annotations_before_original[OF ne og, of "\<lambda>ms. ms" ex_usr ex_cp ex_self ex_state]
  show ?thesis
    by (simp add: an r1 ex_usr_def)
qed


lemma fill_apply:
  "fill d k = (if k = ''add_stopper'' \<and> d k = None then Some (VBool True) else d k)"
  by (auto simp: fill_def setdefault_def)

lemma dict_merge_apply:
  "dict_merge a m k = (case m k of Some v \<Rightarrow> Some v | None \<Rightarrow> a k)"
  by (simp add: dict_merge_def map_add_def)

lemma fill_merge_cong:
  assumes "fill a = fill b"
  shows "fill (dict_merge a m) = fill (dict_merge b m)"
proof (rule ext)
  fix k
  from assms have "fill a k = fill b k" by simp
  then show "fill (dict_merge a m) k = fill (dict_merge b m) k"
    by (auto simp: fill_apply dict_merge_apply split: option.splits if_splits)
qed

lemma for_each_sim:
  assumes step: "\<And>x s s' t. f x s = Inr s' \<Longrightarrow> E s t \<Longrightarrow>
      \<exists>t' new. f x t = Inr t' \<and> E s' t' \<and> calls s' = calls s @ new \<and> calls t' = calls t @ new"
  shows "for_each f xs s = Inr s' \<Longrightarrow> E s t \<Longrightarrow>
      \<exists>t' new. for_each f xs t = Inr t' \<and> E s' t' \<and> calls s' = calls s @ new \<and> calls t' = calls t @ new"
proof (induction xs arbitrary: s t)
  case Nil
  then show ?case by simp
next
  case (Cons x xs)
  from Cons.prems(1) obtain s1 where s1: "f x s = Inr s1" and rest: "for_each f xs s1 = Inr s'"
    by (auto split: sum.splits)
  from step[OF s1 Cons.prems(2)] obtain t1 new1 where
    t1: "f x t = Inr t1" and e1: "E s1 t1"
    and c1: "calls s1 = calls s @ new1" "calls t1 = calls t @ new1" by blast
  from Cons.IH[OF rest e1] obtain t' new2 where
    t': "for_each f xs t1 = Inr t'" and e2: "E s' t'"
    and c2: "calls s' = calls s1 @ new2" "calls t' = calls t1 @ new2" by blast
  have "for_each f (x # xs) t = Inr t'" using t1 t' by simp
  moreover have "calls s' = calls s @ (new1 @ new2)" "calls t' = calls t @ (new1 @ new2)"
    using c1 c2 by simp_all
  ultimately show ?case using e2 by blast
qed

lemma register_base_sim:
  assumes "register_base cp self h p s = Inr s'" and "heap_eqv s t"
  shows "\<exists>t' new. register_base cp self h p t = Inr t' \<and> heap_eqv s' t'
           \<and> calls s' = calls s @ new \<and> calls t' = calls t @ new"
proof -
  from assms(2) have eq: "fill (heap s (h_opts h)) = fill (heap t (h_opts h))"
    and all: "\<And>r. fill (heap s r) = fill (heap t r)"
    by (simp_all add: heap_eqv_def)
  from assms(1) have s': "s' = s\<lparr>heap := (heap s)(h_opts h := fill (heap s (h_opts h))),
             calls := calls s @ [(h_verb h, cp (transform_path p) (fill (heap s (h_opts h))),
                                   (h_fn h, self), inst_class self)]\<rparr>"
    by (simp add: register_base_eq)
  let ?t' = "t\<lparr>heap := (heap t)(h_opts h := fill (heap t (h_opts h))),
             calls := calls t @ [(h_verb h, cp (transform_path p) (fill (heap t (h_opts h))),
                                   (h_fn h, self), inst_class self)]\<rparr>"
  have "register_base cp self h p t = Inr ?t'" by (simp add: register_base_eq)
  moreover have "heap_eqv s' ?t'"
    using all eq by (simp add: heap_eqv_def s')
  moreover have "calls s' = calls s @ [(h_verb h, cp (transform_path p) (fill (heap s (h_opts h))),
                                   (h_fn h, self), inst_class self)]"
    by (simp add: s')
  moreover have "calls ?t' = calls t @ [(h_verb h, cp (transform_path p) (fill (heap s (h_opts h))),
                                   (h_fn h, self), inst_class self)]"
    by (simp add: eq)
  ultimately show ?thesis by blast
qed

lemma register_override_sim:
  assumes "register_override cp self h xs s = Inr s'" and "heap_eqv s t"
  shows "\<exists>t' new. register_override cp self h xs t = Inr t' \<and> heap_eqv s' t'
           \<and> calls s' = calls s @ new \<and> calls t' = calls t @ new"
proof -
  from assms(1) obtain p ov zs where xs: "xs = VStr p # VDict ov # zs"
    by (auto simp: register_override_def do_register_def Let_def split: list.splits pyval.splits)
  from assms(2) have eq: "fill (heap s (h_opts h)) = fill (heap t (h_opts h))"
    by (simp add: heap_eqv_def)
  have kw: "fill (dict_merge (heap s (h_opts h)) (map_of ov)) = fill (dict_merge (heap t (h_opts h)) (map_of ov))"
    using eq by (rule fill_merge_cong)
  let ?c = "(h_verb h, cp (transform_path p) (fill (dict_merge (heap s (h_opts h)) (map_of ov))),
              (h_fn h, self), inst_class self)"
  from assms(1) have s': "s' = s\<lparr>calls := calls s @ [?c]\<rparr>"
    by (simp add: xs register_override_eq)
  have "register_override cp self h xs t = Inr (t\<lparr>calls := calls t @ [?c]\<rparr>)"
    by (simp add: xs register_override_eq kw)
  moreover have "heap_eqv s' (t\<lparr>calls := calls t @ [?c]\<rparr>)"
    using assms(2) by (simp add: heap_eqv_def s')
  moreover have "calls s' = calls s @ [?c]" by (simp add: s')
  moreover have "calls (t\<lparr>calls := calls t @ [?c]\<rparr>) = calls t @ [?c]" by simp
  ultimately show ?thesis by blast
qed

lemma register_aggregate_sim:
  assumes "register_aggregate cp self h e s = Inr s'" and "heap_eqv s t"
  shows "\<exists>t' new. register_aggregate cp self h e t = Inr t' \<and> heap_eqv s' t'
           \<and> calls s' = calls s @ new \<and> calls t' = calls t @ new"
proof (cases e)
  case (VStr p)
  with assms register_base_sim[of cp self h p s s' t] show ?thesis
    by (simp add: register_aggregate_def)
next
  case (VTuple xs)
  with assms register_override_sim[of cp self h xs s s' t] show ?thesis
    by (simp add: register_aggregate_def)
qed (use assms in \<open>auto simp: register_aggregate_def\<close>)

lemma register_method_sim:
  assumes "register_method cp self h s = Inr s'" and "heap_eqv s t"
  shows "\<exists>t' new. register_method cp self h t = Inr t' \<and> heap_eqv s' t'
           \<and> calls s' = calls s @ new \<and> calls t' = calls t @ new"
proof -
  have loop: "\<exists>t' new. for_each (register_aggregate cp self h) xs t = Inr t' \<and> heap_eqv s' t'
           \<and> calls s' = calls s @ new \<and> calls t' = calls t @ new"
    if "for_each (register_aggregate cp self h) xs s = Inr s'" for xs
    using that assms(2)
    by (rule for_each_sim[where E = heap_eqv, rotated]) (rule register_aggregate_sim)
  show ?thesis
  proof (cases "h_paths h")
    case (VStr p)
    with assms register_base_sim[of cp self h p s s' t] show ?thesis
      by (simp add: register_method_def)
  next
    case (VTuple xs)
    with assms(1) loop[of xs] show ?thesis by (simp add: register_method_def)
  next
    case (VList xs)
    with assms(1) loop[of xs] show ?thesis by (simp add: register_method_def)
  next
    case (VDict kvs)
    with assms(1) loop[of "map (\<lambda>kv. VStr (fst kv)) kvs"] show ?thesis by (simp add: register_method_def)
  qed (use assms in \<open>auto simp: register_method_def\<close>)
qed

lemma register_sim:
  assumes "register cp methods self s = Inr s'" and "heap_eqv s t"
  shows "\<exists>t' new. register cp methods self t = Inr t' \<and> heap_eqv s' t'
           \<and> calls s' = calls s @ new \<and> calls t' = calls t @ new"
  using assms unfolding register_def
  by (rule for_each_sim[where E = heap_eqv, rotated]) (rule register_method_sim)

lemma register_heap_eqv:
  assumes "register cp methods self s = Inr s'"
  shows "heap_eqv s s'"
proof -
  from register_filled[of s cp methods self] assms
  have "heap_filled (heap s) (heap s')" by simp
  then show ?thesis
    unfolding heap_filled_def heap_eqv_def by (metis fill_fill)
qed

lemma register_again:
  assumes "register cp methods self st = Inr st1"
  shows "\<exists>st2 new. register cp methods self st1 = Inr st2
            \<and> calls st1 = calls st @ new \<and> calls st2 = calls st @ new @ new"
proof -
  from register_sim[OF assms register_heap_eqv[OF assms]]
  obtain st2 new where "register cp methods self st1 = Inr st2"
    "calls st1 = calls st @ new" "calls st2 = calls st1 @ new" by blast
  then show ?thesis by simp
qed

lemma annotated_update_aux:
  assumes "\<forall>h. (k, Handler h) \<notin> set al"
  shows "fold (\<lambda>(name, m) ms. case m of Handler h \<Rightarrow> add_method h ms | _ \<Rightarrow> ms)
           (AList.update k (Synth r) al) acc
       = fold (\<lambda>(name, m) ms. case m of Handler h \<Rightarrow> add_method h ms | _ \<Rightarrow> ms) al acc"
  using assms
proof (induction al arbitrary: acc)
  case Nil
  show ?case by simp
next
  case (Cons a al)
  obtain k' m where a: "a = (k', m)" by (cases a)
  show ?case
  proof (cases "k' = k")
    case True
    with Cons.prems a have "\<forall>h. m \<noteq> Handler h" by auto
    then show ?thesis using True a by (cases m) simp_all
  next
    case False
    with Cons a show ?thesis by simp
  qed
qed

lemma annotated_update:
  "\<forall>h. (k, Handler h) \<notin> set al \<Longrightarrow> annotated (AList.update k (Synth r) al) = annotated al"
  unfolding annotated_def by (rule annotated_update_aux)

lemma servelet_install:
  "annotated (c_dict cls) \<noteq> [] \<Longrightarrow>
   servelet order cls = cls\<lparr>c_dict := AList.update ''register''
       (Synth (register_proxy (order (annotated (c_dict cls))) (orig_register_of cls)))
       (c_dict cls)\<rparr>"
  by (simp add: servelet_def Let_def)

lemma run_register_proxy:
  "run usr cp (register_proxy ms orig) self st =
     (case register cp ms self st of
        Inl e \<Rightarrow> Inl e
      | Inr st' \<Rightarrow> (case orig of None \<Rightarrow> Inr st' | Some r \<Rightarrow> run usr cp r self st'))"
  by (cases orig) (simp_all add: register_proxy_def split: sum.splits)

text \<open>
  Claim C3, as the code has it. The second application of the aggregation step finds
  the same handlers and takes the routine installed by the first as the original
  routine. Invoking the result runs the annotation-driven registrations, then the
  first routine, which runs them again: the same calls are issued twice.
\<close>

theorem servelet_twice_registers_twice:
  assumes "annotated (c_dict cls) \<noteq> []"
    and "\<forall>h. (''register'', Handler h) \<notin> set (c_dict cls)"
  shows "map_of (c_dict (servelet order (servelet order cls))) ''register''
           = Some (Synth (BridgeFn (order (annotated (c_dict cls)))
                     (register_proxy (order (annotated (c_dict cls))) (orig_register_of cls))))
       \<and> (\<forall>st1. register cp (order (annotated (c_dict cls))) self st = Inr st1 \<longrightarrow>
            (\<exists>st2 new.
                register cp (order (annotated (c_dict cls))) self st1 = Inr st2
              \<and> calls st1 = calls st @ new
              \<and> calls st2 = calls st @ new @ new
              \<and> run usr cp (BridgeFn (order (annotated (c_dict cls)))
                     (register_proxy (order (annotated (c_dict cls))) (orig_register_of cls))) self st
                  = (case orig_register_of cls of
                       None \<Rightarrow> Inr st2
                     | Some r \<Rightarrow> run usr cp r self st2)))"
proof -
  let ?ms = "order (annotated (c_dict cls))"
  let ?r1 = "register_proxy ?ms (orig_register_of cls)"
  let ?cls1 = "servelet order cls"
  have d1: "c_dict ?cls1 = AList.update ''register'' (Synth ?r1) (c_dict cls)"
    using assms(1) by (simp add: servelet_install)
  have a1: "annotated (c_dict ?cls1) = annotated (c_dict cls)"
    unfolding d1 using assms(2) by (rule annotated_update)
  have o1: "orig_register_of ?cls1 = Some ?r1"
    by (simp add: orig_register_of_def d1 update_conv')
  have "c_dict (servelet order ?cls1)
          = AList.update ''register'' (Synth (register_proxy ?ms (Some ?r1))) (c_dict ?cls1)"
    using assms(1) by (simp add: servelet_install[of ?cls1 order] a1 o1)
  then have 1: "map_of (c_dict (servelet order ?cls1)) ''register'' = Some (Synth (BridgeFn ?ms ?r1))"
    by (simp add: update_conv' register_proxy_def)
  have 2: "\<exists>st2 new. register cp ?ms self st1 = Inr st2
              \<and> calls st1 = calls st @ new \<and> calls st2 = calls st @ new @ new
              \<and> run usr cp (BridgeFn ?ms ?r1) self st
                  = (case orig_register_of cls of None \<Rightarrow> Inr st2 | Some r \<Rightarrow> run usr cp r self st2)"
    if a: "register cp ?ms self st = Inr st1" for st1
  proof -
    from register_again[OF a] obtain st2 new where
      b: "register cp ?ms self st1 = Inr st2" and c: "calls st1 = calls st @ new"
        "calls st2 = calls st @ new @ new" by blast
    have "run usr cp (BridgeFn ?ms ?r1) self st
            = (case orig_register_of cls of None \<Rightarrow> Inr st2 | Some r \<Rightarrow> run usr cp r self st2)"
      using a b by (simp add: run_register_proxy)
    with b c show ?thesis by blast
  qed
  from 1 2 show ?thesis by blast
qed

text \<open>
  Claim C3 as stated fails: for a type with one handler on one path, the routine left by
  one application issues one registration, the routine left by two applications issues
  the same registration twice.
\<close>

theorem servelet_twice_duplicates:
  "map_of (c_dict (servelet (\<lambda>ms. ms) ex_cls)) ''register'' = Some (Synth (RegisterFn [ex_get]))
   \<and> calls (reached (run ex_usr ex_cp (RegisterFn [ex_get]) ex_self ex_state))
       = [(''GET'', (''rooms/(?P<roomId>[^/]*)/state'', [''add_stopper'' \<mapsto> VBool True]),
           (1, ex_self), ''RoomServlet'')]
   \<and> map_of (c_dict (servelet (\<lambda>ms. ms) (servelet (\<lambda>ms. ms) ex_cls))) ''register''
       = Some (Synth (BridgeFn [ex_get] (RegisterFn [ex_get])))
   \<and> calls (reached (run ex_usr ex_cp (BridgeFn [ex_get] (RegisterFn [ex_get])) ex_self ex_state))
       = [(''GET'', (''rooms/(?P<roomId>[^/]*)/state'', [''add_stopper'' \<mapsto> VBool True]),
           (1, ex_self), ''RoomServlet''),
          (''GET'', (''rooms/(?P<roomId>[^/]*)/state'', [''add_stopper'' \<mapsto> VBool True]),
           (1, ex_self), ''RoomServlet'')]"
proof -
  have tp: "transform_path ''rooms/{roomId}/state'' = ''rooms/(?P<roomId>[^/]*)/state''"
    by (simp add: RE_SUGAR_match_def sugar_repl_def is_word_def is_alnum_def is_upper_def
        is_lower_def is_digit_def)
  have an: "annotated (c_dict ex_cls) = [ex_get]"
    by (simp add: annotated_def ex_cls_def add_method_def)
  have s1: "servelet (\<lambda>ms. ms) ex_cls = ex_cls\<lparr>c_dict := [(''on_get'', Handler ex_get),
              (''register'', Synth (RegisterFn [ex_get]))]\<rparr>"
    by (simp add: servelet_install an orig_register_of_def register_proxy_def) (simp add: ex_cls_def)
  have an2: "annotated (c_dict (servelet (\<lambda>ms. ms) ex_cls)) = [ex_get]"
    by (simp add: s1 annotated_def add_method_def)
  have s2: "c_dict (servelet (\<lambda>ms. ms) (servelet (\<lambda>ms. ms) ex_cls)) = [(''on_get'', Handler ex_get),
              (''register'', Synth (BridgeFn [ex_get] (RegisterFn [ex_get])))]"
    using an2 by (simp add: servelet_install[of "servelet (\<lambda>ms. ms) ex_cls"])
      (simp add: s1 orig_register_of_def register_proxy_def)
  have c1: "map_of (c_dict (servelet (\<lambda>ms. ms) ex_cls)) ''register'' = Some (Synth (RegisterFn [ex_get]))"
    by (simp add: s1)
  have c3: "map_of (c_dict (servelet (\<lambda>ms. ms) (servelet (\<lambda>ms. ms) ex_cls))) ''register''
       = Some (Synth (BridgeFn [ex_get] (RegisterFn [ex_get])))"
    by (simp add: s2)
  have c2: "calls (reached (run ex_usr ex_cp (RegisterFn [ex_get]) ex_self ex_state))
       = [(''GET'', (''rooms/(?P<roomId>[^/]*)/state'', [''add_stopper'' \<mapsto> VBool True]),
           (1, ex_self), ''RoomServlet'')]"
    by (simp add: register_def register_method_def register_base_eq ex_get_def ex_state_def
        ex_cp_def ex_self_def fill_def setdefault_def tp del: transform_path.simps)
  have c4: "calls (reached (run ex_usr ex_cp (BridgeFn [ex_get] (RegisterFn [ex_get])) ex_self ex_state))
       = [(''GET'', (''rooms/(?P<roomId>[^/]*)/state'', [''add_stopper'' \<mapsto> VBool True]),
           (1, ex_self), ''RoomServlet''),
          (''GET'', (''rooms/(?P<roomId>[^/]*)/state'', [''add_stopper'' \<mapsto> VBool True]),
           (1, ex_self), ''RoomServlet'')]"
    by (simp add: register_def register_method_def register_base_eq ex_get_def ex_state_def
        ex_cp_def ex_self_def fill_def setdefault_def tp del: transform_path.simps)
  from c1 c2 c3 c4 show ?thesis
    by (intro conjI)
qed

theorem servelet_twice_registers_twice_witness:
  "map_of (c_dict (servelet (\<lambda>ms. ms) (servelet (\<lambda>ms. ms) ex_cls))) ''register''
           = Some (Synth (BridgeFn [ex_get] (RegisterFn [ex_get])))
   \<and> (\<exists>st1 st2 new.
          register ex_cp [ex_get] ex_self ex_state = Inr st1
        \<and> register ex_cp [ex_get] ex_self st1 = Inr st2
        \<and> calls st1 = calls ex_state @ new
        \<and> calls st2 = calls ex_state @ new @ new
        \<and> length new = 1
        \<and> run ex_usr ex_cp (BridgeFn [ex_get] (RegisterFn [ex_get])) ex_self ex_state = Inr st2)"
proof -
  have an: "annotated (c_dict ex_cls) = [ex_get]"
    by (simp add: annotated_def ex_cls_def add_method_def)
  have nh: "\<forall>h. (''register'', Handler h) \<notin> set (c_dict ex_cls)"
    by (simp add: ex_cls_def)
  have ne: "annotated (c_dict ex_cls) \<noteq> []"
    by (simp add: an)
  have og: "orig_register_of ex_cls = None"
    by (simp add: orig_register_of_def ex_cls_def)
  obtain st1 where r1: "register ex_cp [ex_get] ex_self ex_state = Inr st1"
    and l1: "length (calls st1) = 1"
    by (simp add: register_def register_method_def register_base_eq ex_get_def ex_state_def)
  from servelet_twice_registers_twice[OF ne nh, of "\<lambda>ms. ms" ex_cp ex_self ex_state ex_usr] r1 l1
  show ?thesis
    by (auto simp: an og register_proxy_def ex_state_def)
qed

section \<open>Properties of the path template compiler and of \<^verbatim>\<open>glob_to_regex\<close>\<close>

lemma brace_not_word: "\<not> is_word (CHR ''{'')" "\<not> is_word (CHR ''}'')"
  by (simp_all add: is_word_def is_alnum_def is_upper_def is_lower_def is_digit_def)

lemma RE_SUGAR_match_placeholder:
  assumes "n \<noteq> []" and "list_all is_word n"
  shows "RE_SUGAR_match (CHR ''{'' # n @ CHR ''}'' # post) = Some (n, post)"
proof -
  from assms(2) have w: "\<And>x. x \<in> set n \<Longrightarrow> is_word x"
    by (simp add: list_all_iff)
  have "takeWhile is_word (n @ CHR ''}'' # post) = n"
    using w by (simp add: takeWhile_append2 brace_not_word)
  moreover have "dropWhile is_word (n @ CHR ''}'' # post) = CHR ''}'' # post"
    using w by (simp add: dropWhile_append2 brace_not_word)
  ultimately show ?thesis
    using assms(1) by (simp add: RE_SUGAR_match_def)
qed

lemma transform_path_None:
  "RE_SUGAR_match (c # cs) = None \<Longrightarrow> transform_path (c # cs) = c # transform_path cs"
  by simp

lemma transform_path_Some:
  "RE_SUGAR_match (c # cs) = Some (name, rest) \<Longrightarrow>
   transform_path (c # cs) = sugar_repl name @ transform_path rest"
  by simp

lemma transform_path_placeholder:
  assumes "n \<noteq> []" and "list_all is_word n"
  shows "transform_path (CHR ''{'' # n @ CHR ''}'' # post) = sugar_repl n @ transform_path post"
  using RE_SUGAR_match_placeholder[OF assms] by (rule transform_path_Some)

lemma RE_SUGAR_match_Cons:
  "RE_SUGAR_match (c # cs) =
     (if c = CHR ''{'' \<and> takeWhile is_word cs \<noteq> [] then
        (case dropWhile is_word cs of
           [] \<Rightarrow> None
         | d # rest \<Rightarrow> if d = CHR ''}'' then Some (takeWhile is_word cs, rest) else None)
      else None)"
  by (simp add: RE_SUGAR_match_def)

lemma RE_SUGAR_match_append_brace:
  "RE_SUGAR_match (c # cs @ CHR ''{'' # rest) =
     map_option (\<lambda>(name, r). (name, r @ CHR ''{'' # rest)) (RE_SUGAR_match (c # cs))"
proof -
  define t where "t = takeWhile is_word cs"
  define d where "d = dropWhile is_word cs"
  have tw: "takeWhile is_word (cs @ CHR ''{'' # rest) = t"
    unfolding t_def by (induction cs) (simp_all add: brace_not_word)
  have dw: "dropWhile is_word (cs @ CHR ''{'' # rest) = d @ CHR ''{'' # rest"
    unfolding d_def by (induction cs) (simp_all add: brace_not_word)
  have "(if c = CHR ''{'' \<and> t \<noteq> [] then
        (case d @ CHR ''{'' # rest of
           [] \<Rightarrow> None
         | e # r \<Rightarrow> if e = CHR ''}'' then Some (t, r) else None)
      else None)
     = map_option (\<lambda>(name, r). (name, r @ CHR ''{'' # rest))
        (if c = CHR ''{'' \<and> t \<noteq> [] then
          (case d of
             [] \<Rightarrow> None
           | e # r \<Rightarrow> if e = CHR ''}'' then Some (t, r) else None)
         else None)"
    by (cases d) simp_all
  then show ?thesis
    unfolding RE_SUGAR_match_Cons tw dw t_def[symmetric] d_def[symmetric] .
qed

lemma transform_path_split:
  "transform_path (pre @ CHR ''{'' # rest) = transform_path pre @ transform_path (CHR ''{'' # rest)"
proof (induction pre rule: transform_path.induct)
  case 1
  show ?case by (simp del: transform_path.simps add: transform_path.simps(1))
next
  case (2 c cs)
  show ?case
  proof (cases "RE_SUGAR_match (c # cs)")
    case None
    then have "RE_SUGAR_match (c # cs @ CHR ''{'' # rest) = None"
      by (simp add: RE_SUGAR_match_append_brace)
    then have "transform_path (c # cs @ CHR ''{'' # rest) = c # transform_path (cs @ CHR ''{'' # rest)"
      by (rule transform_path_None)
    moreover have "transform_path (c # cs) = c # transform_path cs"
      using None by (rule transform_path_None)
    moreover have "transform_path (cs @ CHR ''{'' # rest) = transform_path cs @ transform_path (CHR ''{'' # rest)"
      using 2 None by blast
    ultimately show ?thesis
      by (simp del: transform_path.simps)
  next
    case (Some a)
    obtain name r where a: "a = (name, r)" by (cases a)
    have m: "RE_SUGAR_match (c # cs) = Some (name, r)"
      using Some a by simp
    then have "RE_SUGAR_match (c # cs @ CHR ''{'' # rest) = Some (name, r @ CHR ''{'' # rest)"
      by (simp add: RE_SUGAR_match_append_brace)
    then have "transform_path (c # cs @ CHR ''{'' # rest)
        = sugar_repl name @ transform_path (r @ CHR ''{'' # rest)"
      by (rule transform_path_Some)
    moreover have "transform_path (c # cs) = sugar_repl name @ transform_path r"
      using m by (rule transform_path_Some)
    moreover have "transform_path (r @ CHR ''{'' # rest) = transform_path r @ transform_path (CHR ''{'' # rest)"
      using 2 m by blast
    ultimately show ?thesis
      by (simp del: transform_path.simps)
  qed
qed

lemma transform_path_literal:
  "CHR ''{'' \<notin> set lit \<Longrightarrow> transform_path (lit @ rest) = lit @ transform_path rest"
proof (induction lit)
  case Nil
  show ?case by (simp del: transform_path.simps)
next
  case (Cons c cs)
  then have "c \<noteq> CHR ''{''" by auto
  then have "RE_SUGAR_match (c # cs @ rest) = None"
    by (simp add: RE_SUGAR_match_Cons)
  then have "transform_path (c # cs @ rest) = c # transform_path (cs @ rest)"
    by (rule transform_path_None)
  with Cons show ?case by (simp del: transform_path.simps)
qed

lemma transform_path_no_placeholder:
  "(\<And>i. RE_SUGAR_match (drop i s) = None) \<Longrightarrow> transform_path s = s"
proof (induction s)
  case Nil
  show ?case by simp
next
  case (Cons c cs)
  from Cons.prems[of 0] have 0: "RE_SUGAR_match (c # cs) = None" by simp
  have "\<And>i. RE_SUGAR_match (drop i cs) = None"
    using Cons.prems[of "Suc _"] by simp
  then have "transform_path cs = cs" by (rule Cons.IH)
  with transform_path_None[OF 0] show ?case by simp
qed

lemma re_parse_Nil: "re_parse [] stk = (if stk = [] then Some [] else None)"
  by (subst re_parse.simps) simp

lemma re_parse_atom:
  "re_token s = Some (TAtom a, r) \<Longrightarrow> (\<forall>r'. r \<noteq> CHR ''*'' # r') \<Longrightarrow>
   re_parse s stk = map_option (Cons (IAtom a)) (re_parse r stk)"
  by (subst re_parse.simps) (auto simp: re_token_def split: list.splits)

lemma re_parse_star:
  "re_token s = Some (TAtom a, CHR ''*'' # r) \<Longrightarrow>
   re_parse s stk = map_option (Cons (IStar a)) (re_parse r stk)"
  by (subst re_parse.simps) (auto simp: re_token_def)

lemma re_parse_bos:
  "re_token s = Some (TBos, r) \<Longrightarrow> re_parse s stk = map_option (Cons IBos) (re_parse r stk)"
  by (subst re_parse.simps) (auto simp: re_token_def)

lemma re_parse_eos:
  "re_token s = Some (TEos, r) \<Longrightarrow> re_parse s stk = map_option (Cons IEos) (re_parse r stk)"
  by (subst re_parse.simps) (auto simp: re_token_def)

lemma re_parse_open:
  "re_token s = Some (TOpen n, r) \<Longrightarrow>
   re_parse s stk = map_option (Cons (IOpen n)) (re_parse r (n # stk))"
  by (subst re_parse.simps) (auto simp: re_token_def)

lemma re_parse_close:
  "re_token s = Some (TClose, r) \<Longrightarrow>
   re_parse s (n # stk) = map_option (Cons IClose) (re_parse r stk)"
  by (subst re_parse.simps) (auto simp: re_token_def)

lemma gt_not_word: "\<not> is_word (CHR ''>'')"
  by (simp add: is_word_def is_alnum_def is_upper_def is_lower_def is_digit_def)

lemma re_token_group_open:
  assumes "group_name_ok n"
  shows "re_token (''(?P<'' @ n @ CHR ''>'' # rest) = Some (TOpen n, rest)"
proof -
  from assms have w: "\<And>x. x \<in> set n \<Longrightarrow> x \<noteq> CHR ''>''"
    using gt_not_word by (auto simp: group_name_ok_def list_all_iff)
  have tw: "takeWhile (\<lambda>x. x \<noteq> CHR ''>'') (n @ CHR ''>'' # rest) = n"
    using w by (simp add: takeWhile_append2)
  have dw: "dropWhile (\<lambda>x. x \<noteq> CHR ''>'') (n @ CHR ''>'' # rest) = CHR ''>'' # rest"
    using w by (simp add: dropWhile_append2)
  show ?thesis
    using assms by (simp add: re_token_def backslash_def tw dw)
qed

lemma re_parse_group:
  assumes "group_name_ok n"
  shows "re_parse (sugar_repl n @ rest) stk
       = map_option (\<lambda>is. IOpen n # IStar (NotChar (CHR ''/'')) # IClose # is) (re_parse rest stk)"
proof -
  have 1: "re_parse (sugar_repl n @ rest) stk
      = map_option (Cons (IOpen n)) (re_parse (''[^/]*)'' @ rest) (n # stk))"
    using re_parse_open[OF re_token_group_open[OF assms, of "''[^/]*)'' @ rest"], of stk]
    by (simp add: sugar_repl_def)
  have "re_token (''[^/]*)'' @ rest) = Some (TAtom (NotChar (CHR ''/'')), CHR ''*'' # CHR '')'' # rest)"
    by (simp add: re_token_def backslash_def is_meta_def)
  then have 2: "re_parse (''[^/]*)'' @ rest) (n # stk)
      = map_option (Cons (IStar (NotChar (CHR ''/'')))) (re_parse (CHR '')'' # rest) (n # stk))"
    by (rule re_parse_star)
  have "re_token (CHR '')'' # rest) = Some (TClose, rest)"
    by (simp add: re_token_def backslash_def)
  then have 3: "re_parse (CHR '')'' # rest) (n # stk) = map_option (Cons IClose) (re_parse rest stk)"
    by (rule re_parse_close)
  show ?thesis
    unfolding 1 2 3 by (simp add: option.map_comp comp_def)
qed

lemma lower_not_slash: "lower d = CHR ''/'' \<longleftrightarrow> d = CHR ''/''"
proof (cases "is_upper d")
  case False
  then show ?thesis by (simp add: lower_def)
next
  case True
  then have r: "65 \<le> (of_char d :: nat)" "(of_char d :: nat) \<le> 90"
    by (simp_all add: is_upper_def Let_def)
  have "d \<noteq> CHR ''/''" using r by auto
  moreover have "lower d \<noteq> CHR ''/''"
  proof
    assume "lower d = CHR ''/''"
    then have "(of_char (lower d) :: nat) = 47" by simp
    moreover have "(of_char (lower d) :: nat) = of_char d + 32"
      using True r by (simp add: lower_def)
    ultimately show False using r by simp
  qed
  ultimately show ?thesis by simp
qed

lemma amatch_not_slash: "amatch ic (NotChar (CHR ''/'')) d \<longleftrightarrow> d \<noteq> CHR ''/''"
  using lower_not_slash[of d] lower_not_slash[of "CHR ''/''"] by (auto simp: eq_commute)

lemma run_re_star_Nil:
  "run_re ic full (IStar a # is) pos [] opn caps = run_re ic full is pos [] opn caps"
  by simp

lemma run_re_star_Cons:
  "run_re ic full (IStar a # is) pos (c # cs) opn caps =
     (if amatch ic a c then
        (case run_re ic full (IStar a # is) (Suc pos) cs (push c opn) caps of
           Some r \<Rightarrow> Some r
         | None \<Rightarrow> run_re ic full is pos (c # cs) opn caps)
      else run_re ic full is pos (c # cs) opn caps)"
  by simp

lemma run_re_segment:
  "run_re ic True [IStar (NotChar (CHR ''/'')), IClose] pos s [(n, t)] caps
     = (if CHR ''/'' \<notin> set s then Some (caps @ [(n, t @ s)]) else None)"
proof (induction s arbitrary: pos t)
  case Nil
  show ?case by simp
next
  case (Cons c cs)
  have "push c [(n, t)] = [(n, t @ [c])]"
    by (simp add: push_def)
  then show ?case
    by (subst run_re_star_Cons)
       (simp add: amatch_not_slash Cons.IH del: amatch.simps run_re.simps(3))
qed

lemma fullmatch_group:
  assumes "group_name_ok n"
  shows "\<exists>p. re_compile (sugar_repl n) ic = Some p
           \<and> (\<forall>s. fullmatch p s = (if CHR ''/'' \<notin> set s then Some [(n, s)] else None))"
proof -
  have "re_parse (sugar_repl n) [] = Some [IOpen n, IStar (NotChar (CHR ''/'')), IClose]"
    using re_parse_group[OF assms, of "[]" "[]"] by (simp add: re_parse_Nil)
  then have "re_compile (sugar_repl n) ic
      = Some \<lparr>prog = [IOpen n, IStar (NotChar (CHR ''/'')), IClose], ignorecase = ic\<rparr>"
    by (simp add: re_compile_def)
  moreover have "fullmatch \<lparr>prog = [IOpen n, IStar (NotChar (CHR ''/'')), IClose], ignorecase = ic\<rparr> s
      = (if CHR ''/'' \<notin> set s then Some [(n, s)] else None)" for s
    using run_re_segment[of ic 0 s n "[]" "[]"] by (simp add: fullmatch_def)
  ultimately show ?thesis by simp
qed

lemma glob_res_fold:
  "fold (\<lambda>c res. if c = CHR ''*'' then res @ ''.*''
                    else if c = CHR ''?'' then res @ ''.''
                    else res @ re_escape [c]) g acc = acc @ concat (map glob_piece g)"
  by (induction g arbitrary: acc) (simp_all add: glob_piece_def)

lemma glob_res_pieces: "glob_res g = concat (map glob_piece g)"
  by (simp add: glob_res_def glob_res_fold)

lemma escape_special_not_alnum: "escape_special c \<Longrightarrow> \<not> is_alnum c"
  by (auto simp: escape_special_def is_alnum_def is_upper_def is_lower_def is_digit_def backslash_def)

lemma is_meta_escape_special: "is_meta c \<Longrightarrow> escape_special c"
  by (auto simp: escape_special_def is_meta_def)

lemma A_Z_alnum: "is_alnum (CHR ''A'')" "is_alnum (CHR ''Z'')"
  by (simp_all add: is_alnum_def is_upper_def)

lemma re_token_escaped:
  assumes "escape_special c"
  shows "re_token (backslash # c # rest) = Some (TAtom (Lit c), rest)"
proof -
  from assms have "\<not> is_alnum c" by (rule escape_special_not_alnum)
  moreover from this have "c \<noteq> CHR ''A''" "c \<noteq> CHR ''Z''"
    using A_Z_alnum by auto
  ultimately show ?thesis by (simp add: re_token_def)
qed

lemma re_token_plain:
  assumes "\<not> escape_special c"
  shows "re_token (c # rest) = Some (TAtom (Lit c), rest)"
proof -
  from assms have m: "\<not> is_meta c" using is_meta_escape_special by blast
  then have "c \<noteq> backslash" "c \<noteq> CHR ''.''" "c \<noteq> CHR ''[''" "c \<noteq> CHR ''(''" "c \<noteq> CHR '')''"
    by (auto simp: is_meta_def)
  with m show ?thesis by (simp add: re_token_def)
qed

lemma re_token_dot: "re_token (CHR ''.'' # rest) = Some (TAtom AnyChar, rest)"
  by (simp add: re_token_def backslash_def)

lemma glob_piece_no_star:
  "\<forall>r'. glob_piece c @ rest \<noteq> CHR ''*'' # r'"
  by (auto simp: glob_piece_def re_escape_def escape_special_def backslash_def)

lemma glob_pieces_no_star:
  "\<forall>r'. concat (map glob_piece cs) @ backslash # t \<noteq> CHR ''*'' # r'"
proof (cases cs)
  case Nil
  then show ?thesis by (simp add: backslash_def)
next
  case (Cons c cs')
  then show ?thesis using glob_piece_no_star[of c "concat (map glob_piece cs') @ backslash # t"]
    by simp
qed

lemma re_parse_glob_piece:
  assumes "\<forall>r'. rest \<noteq> CHR ''*'' # r'"
  shows "re_parse (glob_piece c @ rest) stk = map_option (Cons (glob_instr c)) (re_parse rest stk)"
proof -
  consider "c = CHR ''*''" | "c = CHR ''?''" | "c \<noteq> CHR ''*''" "c \<noteq> CHR ''?''" "escape_special c"
    | "c \<noteq> CHR ''*''" "c \<noteq> CHR ''?''" "\<not> escape_special c" by blast
  then show ?thesis
  proof cases
    case 1
    have "re_parse (CHR ''.'' # CHR ''*'' # rest) stk = map_option (Cons (IStar AnyChar)) (re_parse rest stk)"
      using re_token_dot by (rule re_parse_star)
    with 1 show ?thesis by (simp add: glob_piece_def glob_instr_def)
  next
    case 2
    have "re_parse (CHR ''.'' # rest) stk = map_option (Cons (IAtom AnyChar)) (re_parse rest stk)"
      using re_token_dot assms by (rule re_parse_atom)
    with 2 show ?thesis by (simp add: glob_piece_def glob_instr_def)
  next
    case 3
    have "re_parse (backslash # c # rest) stk = map_option (Cons (IAtom (Lit c))) (re_parse rest stk)"
      using re_token_escaped[OF 3(3)] assms by (rule re_parse_atom)
    with 3 show ?thesis by (simp add: glob_piece_def glob_instr_def re_escape_def)
  next
    case 4
    have "re_parse (c # rest) stk = map_option (Cons (IAtom (Lit c))) (re_parse rest stk)"
      using re_token_plain[OF 4(3)] assms by (rule re_parse_atom)
    with 4 show ?thesis by (simp add: glob_piece_def glob_instr_def re_escape_def)
  qed
qed

lemma re_parse_glob_body:
  "re_parse (concat (map glob_piece g) @ [backslash, CHR ''Z'']) [] = Some (map glob_instr g @ [IEos])"
proof (induction g)
  case Nil
  have "re_token [backslash, CHR ''Z''] = Some (TEos, [])"
    by (simp add: re_token_def backslash_def)
  then have "re_parse [backslash, CHR ''Z''] [] = map_option (Cons IEos) (re_parse [] [])"
    by (rule re_parse_eos)
  then show ?case by (simp add: re_parse_Nil)
next
  case (Cons c cs)
  have "re_parse (glob_piece c @ (concat (map glob_piece cs) @ [backslash, CHR ''Z''])) []
      = map_option (Cons (glob_instr c)) (re_parse (concat (map glob_piece cs) @ [backslash, CHR ''Z'']) [])"
    using glob_pieces_no_star[of cs "[CHR ''Z'']"] by (intro re_parse_glob_piece) simp
  with Cons.IH show ?case by simp
qed

lemma group_names_glob: "group_names (map glob_instr g @ [IEos]) = []"
  by (induction g) (simp_all add: glob_instr_def)

lemma glob_to_regex_prog:
  "glob_to_regex g = Some \<lparr>prog = IBos # map glob_instr g @ [IEos], ignorecase = True\<rparr>"
proof -
  have "re_token (backslash # CHR ''A'' # glob_res g @ [backslash, CHR ''Z''])
      = Some (TBos, glob_res g @ [backslash, CHR ''Z''])"
    by (simp add: re_token_def)
  then have "re_parse (backslash # CHR ''A'' # glob_res g @ [backslash, CHR ''Z'']) []
      = map_option (Cons IBos) (re_parse (glob_res g @ [backslash, CHR ''Z'']) [])"
    by (rule re_parse_bos)
  then have "re_parse ([backslash, CHR ''A''] @ glob_res g @ [backslash, CHR ''Z'']) []
      = Some (IBos # map glob_instr g @ [IEos])"
    by (simp add: glob_res_pieces re_parse_glob_body)
  then show ?thesis
    by (simp add: glob_to_regex_def re_compile_def group_names_glob)
qed

lemma push_Nil: "push c [] = []"
  by (simp add: push_def)

lemma glob_instr_simps:
  "glob_instr (CHR ''*'') = IStar AnyChar"
  "glob_instr (CHR ''?'') = IAtom AnyChar"
  "c \<noteq> CHR ''*'' \<Longrightarrow> c \<noteq> CHR ''?'' \<Longrightarrow> glob_instr c = IAtom (Lit c)"
  by (simp_all add: glob_instr_def)

lemma run_re_glob_body:
  "run_re True full (map glob_instr g @ [IEos]) pos s [] caps
     = (if glob_matches g s then Some caps else None)"
proof (induction g s arbitrary: pos rule: glob_matches.induct)
  case (1 s)
  show ?case by simp
next
  case (2 g gs)
  show ?case
  proof (cases "g = CHR ''*''")
    case True
    then show ?thesis using 2[of pos] by (simp add: glob_instr_simps)
  next
    case False
    then show ?thesis by (cases "g = CHR ''?''") (simp_all add: glob_instr_simps)
  qed
next
  case (3 g gs c cs)
  show ?case
  proof (cases "g = CHR ''*''")
    case True
    have a: "run_re True full (map glob_instr gs @ [IEos]) pos (c # cs) [] caps
        = (if glob_matches gs (c # cs) then Some caps else None)"
      using True by (rule 3(1))
    have b: "run_re True full (IStar AnyChar # map glob_instr gs @ [IEos]) (Suc pos) cs [] caps
        = (if glob_matches (g # gs) cs then Some caps else None)"
      using 3(2)[OF True, of "Suc pos"] True by (simp add: glob_instr_simps del: run_re.simps(3))
    have "run_re True full (IStar AnyChar # map glob_instr gs @ [IEos]) pos (c # cs) [] caps
        = (if glob_matches gs (c # cs) \<or> (c \<noteq> newline \<and> glob_matches (g # gs) cs)
           then Some caps else None)"
      using a b
      by (subst run_re_star_Cons) (auto simp add: push_Nil simp del: run_re.simps(3))
    with True show ?thesis by (simp add: glob_instr_simps del: run_re.simps(3))
  next
    case False
    have a: "run_re True full (map glob_instr gs @ [IEos]) (Suc pos) cs [] caps
        = (if glob_matches gs cs then Some caps else None)"
      using False by (rule 3(3))
    show ?thesis
      using False a by (cases "g = CHR ''?''") (simp_all add: glob_instr_simps push_Nil)
  qed
qed

lemma glob_star_run:
  "glob_matches (CHR ''*'' # gs) s
     \<longleftrightarrow> (\<exists>k\<le>length s. newline \<notin> set (take k s) \<and> glob_matches gs (drop k s))"
proof (induction s)
  case Nil
  show ?case by simp
next
  case (Cons c cs)
  have "(\<exists>k\<le>length (c # cs). newline \<notin> set (take k (c # cs)) \<and> glob_matches gs (drop k (c # cs)))
      \<longleftrightarrow> glob_matches gs (c # cs)
          \<or> (\<exists>j\<le>length cs. newline \<notin> set (take (Suc j) (c # cs)) \<and> glob_matches gs (drop (Suc j) (c # cs)))"
    (is "?L \<longleftrightarrow> ?A \<or> ?B")
  proof
    assume ?L
    then obtain k where k: "k \<le> length (c # cs)" "newline \<notin> set (take k (c # cs))"
      "glob_matches gs (drop k (c # cs))" by blast
    show "?A \<or> ?B"
    proof (cases k)
      case 0
      with k show ?thesis by simp
    next
      case (Suc j)
      with k have "j \<le> length cs" by simp
      with k Suc show ?thesis by blast
    qed
  next
    assume "?A \<or> ?B"
    then show ?L
    proof
      assume ?A
      then have "0 \<le> length (c # cs) \<and> newline \<notin> set (take 0 (c # cs))
          \<and> glob_matches gs (drop 0 (c # cs))" by simp
      then show ?L by blast
    next
      assume ?B
      then obtain j where "j \<le> length cs" "newline \<notin> set (take (Suc j) (c # cs))"
        "glob_matches gs (drop (Suc j) (c # cs))" by blast
      then have "Suc j \<le> length (c # cs) \<and> newline \<notin> set (take (Suc j) (c # cs))
          \<and> glob_matches gs (drop (Suc j) (c # cs))" by simp
      then show ?L by blast
    qed
  qed
  then show ?case using Cons.IH by auto
qed

lemma search_from_bos:
  "prog p = IBos # is \<Longrightarrow> search_from p (Suc pos) s = None"
  by (induction s arbitrary: pos) simp_all

lemma search_bos:
  assumes "prog p = IBos # is"
  shows "search p s = match p s"
proof (cases s)
  case Nil
  then show ?thesis by (simp add: search_def match_def)
next
  case (Cons c cs)
  then show ?thesis
    using search_from_bos[OF assms, of 0 cs]
    by (simp add: search_def match_def One_nat_def split: option.splits)
qed

text \<open>
  Claim C10, as the code has it. For every glob the expression compiles, with
  \<^verbatim>\<open>IGNORECASE\<close> set. It matches a subject exactly when the whole subject matches the
  glob, where \<^verbatim>\<open>*\<close> stands for a possibly empty run of characters other than the
  newline, \<^verbatim>\<open>?\<close> for one character other than the newline, and any other character
  for itself up to letter case. \<^verbatim>\<open>match\<close> and \<^verbatim>\<open>search\<close> find nothing else: the
  expression is anchored at both ends.
\<close>

theorem glob_to_regex_semantics:
  "(\<exists>p. glob_to_regex g = Some p \<and> ignorecase p
       \<and> (\<forall>s. (fullmatch p s \<noteq> None) = glob_matches g s
              \<and> match p s = fullmatch p s \<and> search p s = fullmatch p s))
   \<and> (\<forall>gs s. glob_matches (CHR ''*'' # gs) s
          = (\<exists>k\<le>length s. newline \<notin> set (take k s) \<and> glob_matches gs (drop k s)))"
proof -
  let ?p = "\<lparr>prog = IBos # map glob_instr g @ [IEos], ignorecase = True\<rparr>"
  have c: "glob_to_regex g = Some ?p" by (rule glob_to_regex_prog)
  have f: "fullmatch ?p s = (if glob_matches g s then Some [] else None)" for s
    using run_re_glob_body[of True g 0 s "[]"] by (simp add: fullmatch_def)
  have m: "match ?p s = (if glob_matches g s then Some [] else None)" for s
    using run_re_glob_body[of False g 0 s "[]"] by (simp add: match_def)
  have s: "search ?p s = match ?p s" for s
    by (rule search_bos) simp
  have "\<exists>p. glob_to_regex g = Some p \<and> ignorecase p
       \<and> (\<forall>s. (fullmatch p s \<noteq> None) = glob_matches g s
              \<and> match p s = fullmatch p s \<and> search p s = fullmatch p s)"
    using c f m s by simp
  then show ?thesis
    using glob_star_run by blast
qed

theorem glob_to_regex_semantics_witness:
  "\<exists>p. glob_to_regex ''a*.?'' = Some p \<and> ignorecase p
       \<and> fullmatch p ''Axy.z'' \<noteq> None \<and> fullmatch p ''Axyzz'' = None
       \<and> search p ''bAxy.z'' = None"
proof -
  from glob_to_regex_semantics[of "''a*.?''"] obtain p where
    p: "glob_to_regex ''a*.?'' = Some p" "ignorecase p"
    and sem: "\<And>s. (fullmatch p s \<noteq> None) = glob_matches ''a*.?'' s"
         "\<And>s. search p s = fullmatch p s" by blast
  have 1: "glob_matches ''a*.?'' ''Axy.z''"
    by code_simp
  have 2: "\<not> glob_matches ''a*.?'' ''Axyzz''"
    by code_simp
  have 3: "\<not> glob_matches ''a*.?'' ''bAxy.z''"
    by code_simp
  from p sem 1 2 3 show ?thesis
    by (metis option.exhaust not_Some_eq)
qed

text \<open>
  Claim C10 as stated fails on a newline: the expression is compiled without
  \<^verbatim>\<open>DOTALL\<close>, so neither \<^verbatim>\<open>*\<close> nor \<^verbatim>\<open>?\<close> matches that character.
\<close>

theorem glob_star_excludes_newline:
  "\<exists>p q. glob_to_regex ''*'' = Some p \<and> fullmatch p [newline] = None
         \<and> match p [newline] = None \<and> search p [newline] = None
         \<and> glob_to_regex ''?'' = Some q \<and> fullmatch q [newline] = None"
  by (simp add: glob_to_regex_prog glob_instr_simps fullmatch_def match_def search_def push_def)

text \<open>
  Claim C1, as the code has it. A placeholder \<^verbatim>\<open>{name}\<close> anywhere in a template is
  replaced by the named group \<^verbatim>\<open>(?P<name>[^/]*)\<close>, the text before and after it being
  transformed on its own; and when the name is an identifier the group matches exactly
  the strings without a slash, the empty one included, which it captures under the name.
\<close>

theorem placeholder_compiles_to_segment_group:
  "(n \<noteq> [] \<and> list_all is_word n \<longrightarrow>
      transform_path (pre @ CHR ''{'' # n @ CHR ''}'' # post)
        = transform_path pre @ ''(?P<'' @ n @ ''>[^/]*)'' @ transform_path post)
   \<and> (group_name_ok n \<longrightarrow>
       (\<exists>p. re_compile (''(?P<'' @ n @ ''>[^/]*)'') ic = Some p
          \<and> (\<forall>s. fullmatch p s = (if CHR ''/'' \<notin> set s then Some [(n, s)] else None))))"
proof (intro conjI impI)
  assume a: "n \<noteq> [] \<and> list_all is_word n"
  have "transform_path (pre @ CHR ''{'' # n @ CHR ''}'' # post)
      = transform_path pre @ transform_path (CHR ''{'' # n @ CHR ''}'' # post)"
    by (rule transform_path_split)
  also have "transform_path (CHR ''{'' # n @ CHR ''}'' # post) = sugar_repl n @ transform_path post"
    using a by (intro transform_path_placeholder) simp_all
  finally show "transform_path (pre @ CHR ''{'' # n @ CHR ''}'' # post)
        = transform_path pre @ ''(?P<'' @ n @ ''>[^/]*)'' @ transform_path post"
    by (simp add: sugar_repl_def del: transform_path.simps)
next
  assume "group_name_ok n"
  from fullmatch_group[OF this, of ic]
  show "\<exists>p. re_compile (''(?P<'' @ n @ ''>[^/]*)'') ic = Some p
          \<and> (\<forall>s. fullmatch p s = (if CHR ''/'' \<notin> set s then Some [(n, s)] else None))"
    by (simp add: sugar_repl_def)
qed

theorem placeholder_compiles_to_segment_group_witness:
  "transform_path (''rooms/'' @ CHR ''{'' # ''roomId'' @ CHR ''}'' # ''/state'')
     = transform_path ''rooms/'' @ ''(?P<'' @ ''roomId'' @ ''>[^/]*)'' @ transform_path ''/state''
   \<and> (\<exists>p. re_compile (''(?P<'' @ ''roomId'' @ ''>[^/]*)'') False = Some p
          \<and> fullmatch p ''!abc:example.org'' = Some [(''roomId'', ''!abc:example.org'')]
          \<and> fullmatch p '''' = Some [(''roomId'', '''')]
          \<and> fullmatch p ''a/b'' = None)"
proof -
  have w: "''roomId'' \<noteq> [] \<and> list_all is_word ''roomId''"
    by code_simp
  have g: "group_name_ok ''roomId''"
    by code_simp
  from placeholder_compiles_to_segment_group[of "''roomId''" "''rooms/''" "''/state''" False] w g
  obtain p where
    1: "transform_path (''rooms/'' @ CHR ''{'' # ''roomId'' @ CHR ''}'' # ''/state'')
          = transform_path ''rooms/'' @ ''(?P<'' @ ''roomId'' @ ''>[^/]*)'' @ transform_path ''/state''"
    and 2: "re_compile (''(?P<'' @ ''roomId'' @ ''>[^/]*)'') False = Some p"
    and 3: "\<And>s. fullmatch p s = (if CHR ''/'' \<notin> set s then Some [(''roomId'', s)] else None)"
    by blast
  have "fullmatch p ''!abc:example.org'' = Some [(''roomId'', ''!abc:example.org'')]"
    "fullmatch p '''' = Some [(''roomId'', '''')]" "fullmatch p ''a/b'' = None"
    by (simp_all add: 3)
  with 1 2 show ?thesis by blast
qed

text \<open>
  Claim C1 as stated fails on the empty segment: the expression compiled from
  \<^verbatim>\<open>rooms/{roomId}/state\<close> matches \<^verbatim>\<open>rooms/!abc:example.org/state\<close> with the capture
  the claim gives, and it also matches \<^verbatim>\<open>rooms//state\<close>, capturing the empty string.
\<close>

theorem empty_segment_matches:
  "\<exists>p. re_compile (transform_path ''rooms/{roomId}/state'') False = Some p
       \<and> fullmatch p ''rooms/!abc:example.org/state'' = Some [(''roomId'', ''!abc:example.org'')]
       \<and> fullmatch p ''rooms//state'' = Some [(''roomId'', [])]"
proof -
  let ?p = "\<lparr>prog = [IAtom (Lit CHR ''r''), IAtom (Lit CHR ''o''), IAtom (Lit CHR ''o''),
      IAtom (Lit CHR ''m''), IAtom (Lit CHR ''s''), IAtom (Lit CHR ''/''),
      IOpen ''roomId'', IStar (NotChar CHR ''/''), IClose,
      IAtom (Lit CHR ''/''), IAtom (Lit CHR ''s''), IAtom (Lit CHR ''t''),
      IAtom (Lit CHR ''a''), IAtom (Lit CHR ''t''), IAtom (Lit CHR ''e'')],
     ignorecase = False\<rparr>"
  have 1: "re_compile (transform_path ''rooms/{roomId}/state'') False = Some ?p"
    by code_simp
  have 2: "fullmatch ?p ''rooms/!abc:example.org/state'' = Some [(''roomId'', ''!abc:example.org'')]"
    by code_simp
  have 3: "fullmatch ?p ''rooms//state'' = Some [(''roomId'', [])]"
    by code_simp
  from 1 2 3 show ?thesis by blast
qed

text \<open>
  Claim C9, as the code has it. Text without an opening brace is copied into the
  expression as it is, and so is every character at which no placeholder starts: nothing
  is escaped.
\<close>

theorem literal_text_copied_unescaped:
  "(CHR ''{'' \<notin> set lit \<longrightarrow> transform_path (lit @ rest) = lit @ transform_path rest)
   \<and> (RE_SUGAR_match (c # cs) = None \<longrightarrow> transform_path (c # cs) = c # transform_path cs)"
  using transform_path_literal[of lit rest] transform_path_None[of c cs] by blast

theorem literal_text_copied_unescaped_witness:
  "transform_path (''a.b/'' @ ''{x}'') = ''a.b/'' @ transform_path ''{x}''
   \<and> RE_SUGAR_match (CHR ''{'' # ''a b}'') = None
   \<and> transform_path (CHR ''{'' # ''a b}'') = CHR ''{'' # transform_path ''a b}''"
proof -
  have 1: "CHR ''{'' \<notin> set ''a.b/''" by simp
  have 2: "RE_SUGAR_match (CHR ''{'' # ''a b}'') = None" by code_simp
  from literal_text_copied_unescaped[of "''a.b/''" "''{x}''" "CHR ''{''" "''a b}''"] 1 2
  show ?thesis by blast
qed

text \<open>
  Claim C9 as stated fails: the dot of \<^verbatim>\<open>a.b\<close> is copied unescaped, and the compiled
  expression matches \<^verbatim>\<open>axb\<close>.
\<close>

theorem metacharacter_not_escaped:
  "transform_path ''a.b'' = ''a.b''
   \<and> (\<exists>p. re_compile (transform_path ''a.b'') False = Some p \<and> fullmatch p ''axb'' = Some [])"
proof -
  let ?p = "\<lparr>prog = [IAtom (Lit CHR ''a''), IAtom AnyChar, IAtom (Lit CHR ''b'')], ignorecase = False\<rparr>"
  have 0: "transform_path ''a.b'' = ''a.b''" by code_simp
  have 1: "re_compile (transform_path ''a.b'') False = Some ?p" by code_simp
  have 2: "fullmatch ?p ''axb'' = Some []" by code_simp
  from 0 1 2 show ?thesis by blast
qed

end
